theory Spec2Isabelle
  imports Main "HOL-Library.Word" "HOL-Library.AList"
begin

unbundle bit_operations_syntax

section \<open>Keys and entries of the policy map state\<close>

text \<open>
  The policy key and the map state entry of package \<open>policy\<close> (file \<open>mapstate.go\<close>).
  The key type itself lives in \<open>pkg/policy/types\<close>; its fields are taken from the
  data model of the design document: direction, 32-bit identity (0 is the wildcard),
  8-bit protocol (0 is the wildcard), 16-bit destination port and the number of
  significant port bits.
\<close>

datatype TrafficDirection = Ingress | Egress

type_synonym NumericIdentity = "32 word"

record LPMKey =
  TrafficDirection :: TrafficDirection
  Nexthdr :: "8 word"
  DestPort :: "16 word"
  PortPrefixLen :: nat

text \<open>\<open>type Key struct { LPMKey; Identity }\<close>: the embedded struct is a field.\<close>

record Key =
  LPMKey :: LPMKey
  Identity :: NumericIdentity

datatype HasAuthType = DefaultAuthType | ExplicitAuthType

type_synonym AuthType = "8 word"

record MapStateEntry =
  Listener :: string
  ProxyPort :: "16 word"
  IsDeny :: bool
  HasAuthType :: HasAuthType
  AuthType :: AuthType

text \<open>
  \<open>MapStateOwner = CachedSelector\<close> is an interface value that may be nil:
  \<open>None\<close> is nil, \<open>Some n\<close> the selector with handle \<open>n\<close>.
  A rule label array (\<open>labels.LabelArray\<close>) is modelled from the design document as a
  linearly ordered rule identifier; \<open>derivedFromRules\<close> is a sorted list of them.
\<close>

type_synonym MapStateOwner = "nat option"
type_synonym LabelArray = nat
type_synonym LabelArrayList = "LabelArray list"

record mapStateEntry =
  MapStateEntry :: MapStateEntry
  priority :: "16 word"
  derivedFromRules :: LabelArrayList
  owners :: "MapStateOwner set"

text \<open>
  Modelled from the spec: \<open>LabelArrayList.MergeSorted\<close> (package \<open>labels\<close>) is not part of
  the sources; the design document calls it a sorted merge of \<open>derived_from_rules\<close>.
  Two sorted lists are merged into one sorted list, equal elements kept once.
\<close>

fun MergeSorted :: "LabelArrayList \<Rightarrow> LabelArrayList \<Rightarrow> LabelArrayList" where
  "MergeSorted [] ys = ys"
| "MergeSorted xs [] = xs"
| "MergeSorted (x # xs) (y # ys) =
     (if x < y then x # MergeSorted xs (y # ys)
      else if y < x then y # MergeSorted (x # xs) ys
      else x # MergeSorted xs ys)"

text \<open>\<open>newMapStateEntry\<close>: \<open>set.NewSet(cs)\<close> is the singleton of the owner.\<close>

definition newMapStateEntry ::
  "MapStateOwner \<Rightarrow> LabelArrayList \<Rightarrow> 16 word \<Rightarrow> string \<Rightarrow> 16 word \<Rightarrow> bool \<Rightarrow>
   HasAuthType \<Rightarrow> AuthType \<Rightarrow> mapStateEntry" where
  "newMapStateEntry cs derivedFrom proxyPort listener prio deny hasAuth authType =
     (let listener' = (if proxyPort = 0 then [] else listener);
          prio' = (if proxyPort = 0 then 0 else if prio = 0 then proxyPort else prio)
      in \<lparr> MapStateEntry = \<lparr> Listener = listener', ProxyPort = proxyPort, IsDeny = deny,
                               HasAuthType = hasAuth, AuthType = authType \<rparr>,
           priority = prio',
           derivedFromRules = derivedFrom,
           owners = {cs} \<rparr>)"

definition IsRedirectEntry :: "MapStateEntry \<Rightarrow> bool" where
  "IsRedirectEntry e = (ProxyPort e \<noteq> 0)"

text \<open>\<open>MapStateEntry.Equal\<close>: the datapath's view, \<open>IsDeny\<close>, \<open>ProxyPort\<close> and \<open>AuthType\<close>.\<close>

definition Equal :: "MapStateEntry \<Rightarrow> MapStateEntry \<Rightarrow> bool" where
  "Equal e oe = (IsDeny e = IsDeny oe \<and> ProxyPort e = ProxyPort oe \<and> AuthType e = AuthType oe)"

definition deepEqual :: "mapStateEntry \<Rightarrow> mapStateEntry \<Rightarrow> bool" where
  "deepEqual e oe =
     (if \<not> Equal (MapStateEntry e) (MapStateEntry oe) then False
      else if Listener (MapStateEntry e) \<noteq> Listener (MapStateEntry oe) \<or> priority e \<noteq> priority oe
        then False
      else if derivedFromRules e \<noteq> derivedFromRules oe then False
      else if owners e \<noteq> owners oe then False
      else True)"

text \<open>
  \<open>mapStateEntry.merge\<close>: the receiver \<open>e\<close> is updated from \<open>entry\<close>. Entries of different
  polarity are not merged (the code logs and returns). The three steps of the body are the
  proxy port by priority, the auth type, then owners and rule labels.
\<close>

definition merge :: "mapStateEntry \<Rightarrow> mapStateEntry \<Rightarrow> mapStateEntry" where
  "merge e entry =
     (if IsDeny (MapStateEntry e) \<noteq> IsDeny (MapStateEntry entry) then e
      else
        let x = MapStateEntry e; n = MapStateEntry entry;
            e1 = (if \<not> IsDeny x \<and> IsRedirectEntry n \<and>
                     (\<not> IsRedirectEntry x \<or> priority entry < priority e \<or>
                      (priority entry = priority e \<and> ProxyPort n < ProxyPort x))
                  then e\<lparr> MapStateEntry := x\<lparr> ProxyPort := ProxyPort n, Listener := Listener n \<rparr>,
                          priority := priority entry \<rparr>
                  else e);
            x1 = MapStateEntry e1;
            e2 = (if IsDeny x then e1
                  else if HasAuthType n = ExplicitAuthType then
                    (if HasAuthType x1 = ExplicitAuthType then
                       (if AuthType n > AuthType x1
                        then e1\<lparr> MapStateEntry := x1\<lparr> AuthType := AuthType n \<rparr> \<rparr>
                        else e1)
                     else e1\<lparr> MapStateEntry := x1\<lparr> HasAuthType := ExplicitAuthType,
                                                     AuthType := AuthType n \<rparr> \<rparr>)
                  else if HasAuthType x1 = DefaultAuthType then
                    e1\<lparr> MapStateEntry := x1\<lparr> AuthType := AuthType n \<rparr> \<rparr>
                  else e1);
            e3 = e2\<lparr> owners := owners e2 \<union> owners entry \<rparr>
        in if length (derivedFromRules entry) > 0
           then e3\<lparr> derivedFromRules := MergeSorted (derivedFromRules e3) (derivedFromRules entry) \<rparr>
           else e3)"

section \<open>The LPM trie index\<close>

text \<open>
  Modelled from the spec: the key's \<open>PrefixLength\<close> (package \<open>policy/types\<close>) and the
  \<open>bitlpm\<close> trie are not part of the sources. The prefix length is the number of
  significant bits of direction, protocol and destination port: the direction bit, then
  eight protocol bits and \<open>PortPrefixLen\<close> port bits; protocol 0 is the wildcard, so an
  L3-only key has the direction bit alone (such keys take precedence over L3/L4 keys, as
  the comment on \<open>denyPreferredInsertWithChanges\<close> says).
\<close>

definition PrefixLength :: "LPMKey \<Rightarrow> nat" where
  "PrefixLength k = (if Nexthdr k = 0 then 1 else 9 + PortPrefixLen k)"

text \<open>
  Modelled from the spec: \<open>IsPrefixOf p k\<close> says that the trie prefix \<open>p\<close> is an ancestor
  of, or equal to, the prefix \<open>k\<close>: the first \<open>PrefixLength p\<close> bits of both agree.
\<close>

definition IsPrefixOf :: "LPMKey \<Rightarrow> LPMKey \<Rightarrow> bool" where
  "IsPrefixOf p k =
     (TrafficDirection p = TrafficDirection k \<and>
      (Nexthdr p = 0 \<or>
       (Nexthdr p = Nexthdr k \<and> PortPrefixLen p \<le> PortPrefixLen k \<and>
        drop_bit (16 - PortPrefixLen p) (DestPort p) =
        drop_bit (16 - PortPrefixLen p) (DestPort k))))"

text \<open>Modelled from the spec: \<open>LPMKey.PortProtoIsEqual\<close>, protocol and port prefix agree.\<close>

definition PortProtoIsEqual :: "LPMKey \<Rightarrow> LPMKey \<Rightarrow> bool" where
  "PortProtoIsEqual k c =
     (Nexthdr k = Nexthdr c \<and> DestPort k = DestPort c \<and> PortPrefixLen k = PortPrefixLen c)"

definition WithIdentity :: "LPMKey \<Rightarrow> NumericIdentity \<Rightarrow> Key" where
  "WithIdentity k nid = \<lparr> LPMKey = k, Identity = nid \<rparr>"

text \<open>
  \<open>type IDSet map[identity.NumericIdentity]struct{}\<close>: a Go map used as a set, kept as a
  list without repetition; ranging over it follows the list.

  Modelled from the spec: the trie maps the key without its identity to the \<open>IDSet\<close> of
  the leaf. \<open>ExactLookup\<close>, \<open>Upsert\<close> and \<open>Delete\<close> address one leaf. The ancestor
  iterators visit the leaves whose prefix is an ancestor of or equal to the given one, the
  descendant iterators the leaves below or equal to it; the two ordered variants visit
  them by prefix length, longest first for ancestors, shortest first for descendants.
\<close>

type_synonym IDSet = "NumericIdentity list"
type_synonym Trie = "(LPMKey \<times> IDSet) list"

definition ExactLookup :: "Trie \<Rightarrow> LPMKey \<Rightarrow> IDSet option" where
  "ExactLookup t k = map_of t k"

definition Upsert :: "LPMKey \<Rightarrow> IDSet \<Rightarrow> Trie \<Rightarrow> Trie" where
  "Upsert k v t = AList.update k v t"

definition Delete :: "LPMKey \<Rightarrow> Trie \<Rightarrow> Trie" where
  "Delete k t = AList.delete k t"

definition AncestorIterator :: "Trie \<Rightarrow> LPMKey \<Rightarrow> (LPMKey \<times> IDSet) list" where
  "AncestorIterator t k = filter (\<lambda>(p, ids). IsPrefixOf p k) t"

definition DescendantIterator :: "Trie \<Rightarrow> LPMKey \<Rightarrow> (LPMKey \<times> IDSet) list" where
  "DescendantIterator t k = filter (\<lambda>(p, ids). IsPrefixOf k p) t"

definition AncestorLongestPrefixFirstIterator :: "Trie \<Rightarrow> LPMKey \<Rightarrow> (LPMKey \<times> IDSet) list" where
  "AncestorLongestPrefixFirstIterator t k =
     rev (sort_key (\<lambda>(p, ids). PrefixLength p) (AncestorIterator t k))"

definition DescendantShortestPrefixFirstIterator :: "Trie \<Rightarrow> LPMKey \<Rightarrow> (LPMKey \<times> IDSet) list" where
  "DescendantShortestPrefixFirstIterator t k =
     sort_key (\<lambda>(p, ids). PrefixLength p) (DescendantIterator t k)"

section \<open>The map state container\<close>

text \<open>
  \<open>mapState\<close>: the Go map \<open>entries\<close> is an association list (ranging over it follows the
  list), looked up with \<open>map_of\<close>.
\<close>

record mapState =
  entries :: "(Key \<times> mapStateEntry) list"
  trie :: Trie

definition newMapState :: mapState where
  "newMapState = \<lparr> entries = [], trie = [] \<rparr>"

definition Lookup :: "mapState \<Rightarrow> Key \<Rightarrow> mapStateEntry option" where
  "Lookup msm k = map_of (entries msm) k"

definition Len :: "mapState \<Rightarrow> nat" where
  "Len msm = length (entries msm)"

text \<open>
  \<open>mapState.upsert\<close>. The \<open>IDSet\<close> of a leaf is a reference in Go, so adding the identity
  to it changes the leaf; here the changed set is stored back at the leaf.
\<close>

definition upsert :: "Key \<Rightarrow> mapStateEntry \<Rightarrow> mapState \<Rightarrow> mapState" where
  "upsert k e msm =
     (let exists = (map_of (entries msm) k \<noteq> None);
          msm1 = msm\<lparr> entries := AList.update k e (entries msm) \<rparr>
      in if \<not> exists then
           (case ExactLookup (trie msm1) (LPMKey k) of
              Some idSet \<Rightarrow>
                msm1\<lparr> trie := Upsert (LPMKey k) (List.insert (Identity k) idSet) (trie msm1) \<rparr>
            | None \<Rightarrow>
                msm1\<lparr> trie := Upsert (LPMKey k) (List.insert (Identity k) [])
                                 (Upsert (LPMKey k) [] (trie msm1)) \<rparr>)
         else msm1)"

text \<open>\<open>mapState.delete\<close>: a leaf whose \<open>IDSet\<close> becomes empty is removed from the trie.\<close>

definition delete_ms :: "Key \<Rightarrow> mapState \<Rightarrow> mapState" where
  "delete_ms k msm =
     (if map_of (entries msm) k \<noteq> None then
        (let msm1 = msm\<lparr> entries := AList.delete k (entries msm) \<rparr>
         in case ExactLookup (trie msm1) (LPMKey k) of
              Some idSet \<Rightarrow>
                (let idSet' = removeAll (Identity k) idSet
                 in if length idSet' = 0
                    then msm1\<lparr> trie := Delete (LPMKey k) (trie msm1) \<rparr>
                    else msm1\<lparr> trie := Upsert (LPMKey k) idSet' (trie msm1) \<rparr>)
            | None \<Rightarrow> msm1)
      else msm)"

text \<open>
  \<open>mapState.get\<close> and \<open>mapState.insert\<close> log an error for a wildcard port with a
  non-zero prefix length and then go on: \<open>invalidPortPrefix\<close> is the guard, the
  \<open>_log\<close> functions give the lines logged, \<open>get\<close> and \<open>insert_ms\<close> the effect.
\<close>

definition invalidPortPrefix :: "Key \<Rightarrow> bool" where
  "invalidPortPrefix k = (DestPort (LPMKey k) = 0 \<and> PortPrefixLen (LPMKey k) > 0)"

definition get_log :: "Key \<Rightarrow> string list" where
  "get_log k =
     (if invalidPortPrefix k
      then [''mapState.Get: invalid port prefix length for wildcard port''] else [])"

definition get :: "mapState \<Rightarrow> Key \<Rightarrow> mapStateEntry option" where
  "get ms k = Lookup ms k"

definition insert_log :: "Key \<Rightarrow> string list" where
  "insert_log k =
     (if invalidPortPrefix k
      then [''mapState.insert: invalid port prefix length for wildcard port''] else [])"

definition insert_ms :: "Key \<Rightarrow> mapStateEntry \<Rightarrow> mapState \<Rightarrow> mapState" where
  "insert_ms k v ms = upsert k v ms"

text \<open>\<open>updateExisting\<close>: the entry is stored again, the indices are not touched.\<close>

definition updateExisting :: "Key \<Rightarrow> mapStateEntry \<Rightarrow> mapState \<Rightarrow> mapState" where
  "updateExisting k v ms = ms\<lparr> entries := AList.update k v (entries ms) \<rparr>"

text \<open>
  Invariant I1 of the container: the keys of \<open>entries\<close> and the leaves of the trie are
  unique; every key of \<open>entries\<close> has its identity in the \<open>IDSet\<close> of the leaf of its
  prefix; every leaf is non-empty, without repetition, and each of its identities is a key
  of \<open>entries\<close>.
\<close>

definition trie_consistent :: "mapState \<Rightarrow> bool" where
  "trie_consistent msm =
     (distinct (map fst (entries msm)) \<and> distinct (map fst (trie msm)) \<and>
      list_all (\<lambda>(k, v). case map_of (trie msm) (LPMKey k) of
                            None \<Rightarrow> False
                          | Some ids \<Rightarrow> Identity k \<in> set ids) (entries msm) \<and>
      list_all (\<lambda>(p, ids). ids \<noteq> [] \<and> distinct ids \<and>
                  list_all (\<lambda>nid. map_of (entries msm) (WithIdentity p nid) \<noteq> None) ids)
               (trie msm))"

text \<open>A sequence of primitive mutations, as the callers of the container issue them.\<close>

datatype mutation = MUpsert Key mapStateEntry | MDelete Key

fun mutate :: "mutation \<Rightarrow> mapState \<Rightarrow> mapState" where
  "mutate (MUpsert k e) ms = upsert k e ms"
| "mutate (MDelete k) ms = delete_ms k ms"

definition mutations :: "mutation list \<Rightarrow> mapState \<Rightarrow> mapState" where
  "mutations ops ms = fold mutate ops ms"

section \<open>The trie iterators of the map state\<close>

text \<open>
  The four iterators of \<open>mapState\<close> walk trie leaves and call \<open>forKey\<close> for keys built
  from a leaf and an identity of its \<open>IDSet\<close>. Each function below gives the keys for
  which \<open>forKey\<close> is called, in the order of the calls; \<open>forKey\<close> itself looks the key up
  in \<open>entries\<close> when it is reached and yields the pair, or logs
  \<open>Missing MapStateEntry\<close> and goes on (\<open>forKey_yield\<close>).

  The loop bodies of the engine change or delete only the entry they were just given, so
  the leaves and identities still to come are those of the trie at the start of the loop:
  Go does not produce a map element removed before it is reached, and the descendant
  iterator keeps enough state to go on after the current node is removed.
\<close>

definition forID :: "Key \<Rightarrow> IDSet \<Rightarrow> Key list" where
  "forID k idSet = (if Identity k \<in> set idSet then [k] else [])"

definition forIDs :: "LPMKey \<Rightarrow> IDSet \<Rightarrow> Key list" where
  "forIDs k idSet = map (\<lambda>nid. WithIdentity k nid) idSet"

definition forKey_yield :: "mapState \<Rightarrow> Key list \<Rightarrow> (Key \<times> mapStateEntry) list" where
  "forKey_yield msm ks = List.map_filter (\<lambda>k. map_option (Pair k) (Lookup msm k)) ks"

definition BroaderOrEqualKeys :: "mapState \<Rightarrow> Key \<Rightarrow> Key list" where
  "BroaderOrEqualKeys msm key =
     concat (map (\<lambda>(lpmKey, idSet).
                forID (WithIdentity lpmKey 0) idSet @
                (if Identity key \<noteq> 0 then forID (WithIdentity lpmKey (Identity key)) idSet else []))
             (AncestorIterator (trie msm) (LPMKey key)))"

definition NarrowerOrEqualKeys :: "mapState \<Rightarrow> Key \<Rightarrow> Key list" where
  "NarrowerOrEqualKeys msm key =
     concat (map (\<lambda>(lpmKey, idSet).
                if Identity key = 0 then forIDs lpmKey idSet
                else forID (WithIdentity lpmKey (Identity key)) idSet)
             (DescendantIterator (trie msm) (LPMKey key)))"

definition CoveringKeysWithSameID :: "mapState \<Rightarrow> Key \<Rightarrow> Key list" where
  "CoveringKeysWithSameID msm key =
     concat (map (\<lambda>(lpmKey, idSet).
                if \<not> PortProtoIsEqual lpmKey (LPMKey key)
                then forID (WithIdentity lpmKey (Identity key)) idSet else [])
             (AncestorLongestPrefixFirstIterator (trie msm) (LPMKey key)))"

definition SubsetKeysWithSameID :: "mapState \<Rightarrow> Key \<Rightarrow> Key list" where
  "SubsetKeysWithSameID msm key =
     concat (map (\<lambda>(lpmKey, idSet).
                if \<not> PortProtoIsEqual lpmKey (LPMKey key)
                then forID (WithIdentity lpmKey (Identity key)) idSet else [])
             (DescendantShortestPrefixFirstIterator (trie msm) (LPMKey key)))"

section \<open>Change tracking\<close>

text \<open>
  \<open>ChangeState\<close> (declared beside \<open>mapstate.go\<close>, as \<open>consumeMapChanges\<close> builds it):
  \<open>Adds\<close> and \<open>Deletes\<close> are key sets, \<open>old\<close> maps keys to their former entries. Each of
  the three Go maps may be nil (\<open>None\<close>): reading a nil map finds nothing, ranging over it
  does nothing, and the code tests for nil before writing.
\<close>

record ChangeState =
  Adds :: "Key list option"
  Deletes :: "Key list option"
  old :: "(Key \<times> mapStateEntry) list option"

definition newChangeState :: ChangeState where
  "newChangeState = \<lparr> Adds = Some [], Deletes = Some [], old = Some [] \<rparr>"

definition has_key :: "Key list option \<Rightarrow> Key \<Rightarrow> bool" where
  "has_key m k = (case m of None \<Rightarrow> False | Some ks \<Rightarrow> k \<in> set ks)"

definition range_keys :: "Key list option \<Rightarrow> Key list" where
  "range_keys m = (case m of None \<Rightarrow> [] | Some ks \<Rightarrow> ks)"

definition range_old :: "(Key \<times> mapStateEntry) list option \<Rightarrow> (Key \<times> mapStateEntry) list" where
  "range_old m = (case m of None \<Rightarrow> [] | Some kvs \<Rightarrow> kvs)"

text \<open>\<open>insertOldIfNotExists\<close> returns whether an old entry was added.\<close>

definition insertOldIfNotExists :: "Key \<Rightarrow> mapStateEntry \<Rightarrow> ChangeState \<Rightarrow> bool \<times> ChangeState" where
  "insertOldIfNotExists key entry changes =
     (case old changes of
        None \<Rightarrow> (False, changes)
      | Some om \<Rightarrow>
          if map_of om key = None then
            (if \<not> has_key (Adds changes) key
             then (True, changes\<lparr> old := Some (AList.update key entry om) \<rparr>)
             else (False, changes))
          else (False, changes))"

text \<open>
  The tail of \<open>addKeyWithChanges\<close>: record an incremental add if the entry is new or
  changed; an add overrides an earlier delete of the same key.
\<close>

definition recordAdd :: "Key \<Rightarrow> bool \<Rightarrow> bool \<Rightarrow> ChangeState \<Rightarrow> ChangeState" where
  "recordAdd key exists datapathEqual changes =
     (case Adds changes of
        None \<Rightarrow> changes
      | Some adds \<Rightarrow>
          if \<not> exists \<or> \<not> datapathEqual then
            changes\<lparr> Adds := Some (List.insert key adds),
                     Deletes := map_option (removeAll key) (Deletes changes) \<rparr>
          else changes)"

definition addKeyWithChanges ::
  "Key \<Rightarrow> mapStateEntry \<Rightarrow> ChangeState \<Rightarrow> mapState \<Rightarrow> bool \<times> mapState \<times> ChangeState" where
  "addKeyWithChanges key entry changes ms =
     (case get ms key of
        Some oldEntry \<Rightarrow>
          if IsDeny (MapStateEntry oldEntry) = IsDeny (MapStateEntry entry) then
            (if deepEqual entry oldEntry then (False, ms, changes)
             else
               let changes1 = snd (insertOldIfNotExists key oldEntry changes);
                   datapathEqual = Equal (MapStateEntry oldEntry) (MapStateEntry entry);
                   ms1 = updateExisting key (merge oldEntry entry) ms
               in (True, ms1, recordAdd key True datapathEqual changes1))
          else if IsDeny (MapStateEntry entry) then
            (True, insert_ms key entry ms, recordAdd key True False changes)
          else (False, ms, changes)
      | None \<Rightarrow> (True, insert_ms key entry ms, recordAdd key False False changes))"

text \<open>
  \<open>deleteKeyWithChanges\<close>: with a nil owner the key is deleted unconditionally, otherwise
  only the contribution of the owner is removed.
\<close>

definition recordDelete :: "Key \<Rightarrow> ChangeState \<Rightarrow> ChangeState" where
  "recordDelete key changes =
     (case Deletes changes of
        None \<Rightarrow> changes
      | Some dels \<Rightarrow>
          changes\<lparr> Deletes := Some (List.insert key dels),
                   Adds := map_option (removeAll key) (Adds changes) \<rparr>)"

definition deleteKeyWithChanges ::
  "Key \<Rightarrow> MapStateOwner \<Rightarrow> ChangeState \<Rightarrow> mapState \<Rightarrow> mapState \<times> ChangeState" where
  "deleteKeyWithChanges key owner changes ms =
     (case get ms key of
        None \<Rightarrow> (ms, changes)
      | Some entry \<Rightarrow>
          let (oldAdded, changes1) = insertOldIfNotExists key entry changes;
              deleted = (delete_ms key ms, recordDelete key changes1)
          in if owner \<noteq> None then
               (if owner \<in> owners entry then
                  (let changed = (owner \<in> owners entry);
                       entry' = entry\<lparr> owners := owners entry - {owner} \<rparr>
                   in if owners entry' \<noteq> {}
                      then ((if changed then updateExisting key entry' ms else ms), changes1)
                      else deleted)
                else
                  (ms, if oldAdded
                       then changes1\<lparr> old := map_option (AList.delete key) (old changes1) \<rparr>
                       else changes1))
             else deleted)"

definition revertChanges :: "ChangeState \<Rightarrow> mapState \<Rightarrow> mapState" where
  "revertChanges changes ms =
     fold (\<lambda>(k, v). insert_ms k v) (range_old (old changes))
       (fold delete_ms (range_keys (Adds changes)) ms)"

section \<open>The precedence engine\<close>

text \<open>
  \<open>policyFeatures\<close> is a set of feature flags with \<open>contains\<close>; its declaration is not
  part of the sources. The only panic of the engine is a value of \<open>error\<close>.
\<close>

datatype policyFeature = denyRules | redirectRules | authRules

type_synonym policyFeatures = "policyFeature set"

definition contains :: "policyFeatures \<Rightarrow> policyFeature \<Rightarrow> bool" where
  "contains features f = (f \<in> features)"

datatype error = CoveringDenyKeyPanic

definition overrideAuthType ::
  "mapStateEntry \<Rightarrow> Key \<Rightarrow> mapStateEntry \<Rightarrow> ChangeState \<Rightarrow> mapState \<Rightarrow> mapState \<times> ChangeState" where
  "overrideAuthType newEntry k v changes ms =
     (let changes1 = snd (insertOldIfNotExists k v changes);
          v' = v\<lparr> MapStateEntry := (MapStateEntry v)\<lparr> AuthType := AuthType (MapStateEntry newEntry) \<rparr> \<rparr>
      in (ms\<lparr> entries := AList.update k v' (entries ms) \<rparr>, changes1))"

text \<open>
  The loop of \<open>authPreferredInsert\<close> over \<open>CoveringKeysWithSameID\<close>: the auth type of the
  most specific covering entry with an explicit auth type, if there is one; a covering
  deny entry panics.
\<close>

fun coveringAuthType :: "(Key \<times> mapStateEntry) list \<Rightarrow> error + AuthType option" where
  "coveringAuthType [] = Inr None"
| "coveringAuthType ((k, v) # rest) =
     (if IsDeny (MapStateEntry v) then Inl CoveringDenyKeyPanic
      else if HasAuthType (MapStateEntry v) = ExplicitAuthType then Inr (Some (AuthType (MapStateEntry v)))
      else coveringAuthType rest)"

text \<open>
  The loop of \<open>authPreferredInsert\<close> over \<open>SubsetKeysWithSameID\<close>: it stops at the first
  entry that is deny or has an explicit auth type, and overrides the auth type of the
  entries before it.
\<close>

fun propagateAuthType ::
  "Key list \<Rightarrow> mapStateEntry \<Rightarrow> mapState \<times> ChangeState \<Rightarrow> mapState \<times> ChangeState" where
  "propagateAuthType [] newEntry (ms, changes) = (ms, changes)"
| "propagateAuthType (k # ks) newEntry (ms, changes) =
     (case Lookup ms k of
        None \<Rightarrow> propagateAuthType ks newEntry (ms, changes)
      | Some v \<Rightarrow>
          if IsDeny (MapStateEntry v) \<or> HasAuthType (MapStateEntry v) = ExplicitAuthType
          then (ms, changes)
          else propagateAuthType ks newEntry (overrideAuthType newEntry k v changes ms))"

definition authPreferredInsert ::
  "Key \<Rightarrow> mapStateEntry \<Rightarrow> ChangeState \<Rightarrow> mapState \<Rightarrow> error + (mapState \<times> ChangeState)" where
  "authPreferredInsert newKey newEntry changes ms =
     (if HasAuthType (MapStateEntry newEntry) = DefaultAuthType then
        (case coveringAuthType (forKey_yield ms (CoveringKeysWithSameID ms newKey)) of
           Inl e \<Rightarrow> Inl e
         | Inr None \<Rightarrow> Inr (snd (addKeyWithChanges newKey newEntry changes ms))
         | Inr (Some a) \<Rightarrow>
             Inr (snd (addKeyWithChanges newKey
                    (newEntry\<lparr> MapStateEntry := (MapStateEntry newEntry)\<lparr> AuthType := a \<rparr> \<rparr>)
                    changes ms)))
      else
        (let (ms1, changes1) =
               propagateAuthType (SubsetKeysWithSameID ms newKey) newEntry (ms, changes)
         in Inr (snd (addKeyWithChanges newKey newEntry changes1 ms1))))"

text \<open>
  The second loop of \<open>denyPreferredInsertWithChanges\<close>: a new deny entry deletes the
  entries it covers, except an identical deny key, which is merged.
\<close>

fun deleteCovered :: "Key list \<Rightarrow> Key \<Rightarrow> mapState \<times> ChangeState \<Rightarrow> mapState \<times> ChangeState" where
  "deleteCovered [] newKey (ms, changes) = (ms, changes)"
| "deleteCovered (k # ks) newKey (ms, changes) =
     (case Lookup ms k of
        None \<Rightarrow> deleteCovered ks newKey (ms, changes)
      | Some v \<Rightarrow>
          if \<not> (IsDeny (MapStateEntry v) \<and> k = newKey)
          then deleteCovered ks newKey (deleteKeyWithChanges k None changes ms)
          else deleteCovered ks newKey (ms, changes))"

text \<open>The first loop: is the new key covered by a deny key other than itself as a deny?\<close>

definition coveredByDeny :: "mapState \<Rightarrow> Key \<Rightarrow> mapStateEntry \<Rightarrow> bool" where
  "coveredByDeny ms newKey newEntry =
     list_ex (\<lambda>(k, v). IsDeny (MapStateEntry v) \<and> \<not> (IsDeny (MapStateEntry newEntry) \<and> k = newKey))
       (forKey_yield ms (BroaderOrEqualKeys ms newKey))"

definition denyPreferredInsertWithChanges ::
  "Key \<Rightarrow> mapStateEntry \<Rightarrow> policyFeatures \<Rightarrow> ChangeState \<Rightarrow> mapState \<Rightarrow>
   error + (mapState \<times> ChangeState)" where
  "denyPreferredInsertWithChanges newKey newEntry features changes ms =
     (if coveredByDeny ms newKey newEntry then Inr (ms, changes)
      else if IsDeny (MapStateEntry newEntry) then
        (let (ms1, changes1) = deleteCovered (NarrowerOrEqualKeys ms newKey) newKey (ms, changes)
         in Inr (snd (addKeyWithChanges newKey newEntry changes1 ms1)))
      else if contains features authRules then authPreferredInsert newKey newEntry changes ms
      else Inr (snd (addKeyWithChanges newKey newEntry changes ms)))"

definition insertWithChanges ::
  "Key \<Rightarrow> mapStateEntry \<Rightarrow> policyFeatures \<Rightarrow> ChangeState \<Rightarrow> mapState \<Rightarrow>
   error + (mapState \<times> ChangeState)" where
  "insertWithChanges key entry features changes ms =
     denyPreferredInsertWithChanges key entry features changes ms"

text \<open>
  A batch of incremental changes applied to one \<open>ChangeState\<close>, as \<open>consumeMapChanges\<close>
  applies them: insertions through the engine and deletions of an owner's contribution
  (or of the whole key, with a nil owner).
\<close>

datatype change = Insert Key mapStateEntry policyFeatures | DeleteKey Key MapStateOwner

fun applyChange :: "change \<Rightarrow> mapState \<times> ChangeState \<Rightarrow> error + (mapState \<times> ChangeState)" where
  "applyChange (Insert key entry features) (ms, changes) =
     insertWithChanges key entry features changes ms"
| "applyChange (DeleteKey key owner) (ms, changes) = Inr (deleteKeyWithChanges key owner changes ms)"

fun applyChanges :: "change list \<Rightarrow> mapState \<times> ChangeState \<Rightarrow> error + (mapState \<times> ChangeState)" where
  "applyChanges [] st = Inr st"
| "applyChanges (c # cs) st =
     (case applyChange c st of Inl e \<Rightarrow> Inl e | Inr st' \<Rightarrow> applyChanges cs st')"

text \<open>
  Invariant I2: no allow entry is shadowed by a deny entry whose port/proto prefix is
  broader or equal and whose identity is the same or the wildcard.
\<close>

definition shadows :: "Key \<Rightarrow> Key \<Rightarrow> bool" where
  "shadows d a = (IsPrefixOf (LPMKey d) (LPMKey a) \<and> (Identity d = Identity a \<or> Identity d = 0))"

definition no_shadowed_allow :: "mapState \<Rightarrow> bool" where
  "no_shadowed_allow ms =
     list_all (\<lambda>(a, va). IsDeny (MapStateEntry va) \<or>
                 list_all (\<lambda>(d, vd). \<not> (IsDeny (MapStateEntry vd) \<and> shadows d a)) (entries ms))
       (entries ms)"

section \<open>The reconciler of the endpoint\<close>

text \<open>
  \<open>MapStateMap\<close> is the exported map from keys to \<open>MapStateEntry\<close>. \<open>mapState.Equals\<close>
  compares a map state with such a map: same length, and every entry of the map state has
  an \<open>Equal\<close> entry in the map.
\<close>

type_synonym MapStateMap = "(Key \<times> MapStateEntry) list"

definition Get :: "mapState \<Rightarrow> Key \<Rightarrow> MapStateEntry option" where
  "Get ms k = (case get ms k of Some v \<Rightarrow> Some (MapStateEntry v) | None \<Rightarrow> None)"

definition Equals :: "mapState \<Rightarrow> MapStateMap \<Rightarrow> bool" where
  "Equals msA msB =
     (if Len msA \<noteq> length msB then False
      else list_all (\<lambda>(kA, vA). case map_of msB kA of
                                   None \<Rightarrow> False
                                 | Some vB \<Rightarrow> Equal vB (MapStateEntry vA)) (entries msA))"

text \<open>
  The endpoint, as far as the reconciler uses it: the desired policy, the realized map
  state map, and the calls made on the external policy map, oldest first. Whether a call
  on the external map fails is not decided by the endpoint: \<open>fails\<close> is a parameter
  (for a delete, failing means an error other than \<open>ENOENT\<close>).
\<close>

datatype PolicyMapCall = AllowKey Key bool AuthType "16 word" | DenyKey Key | DeleteMapKey Key

record Endpoint =
  desiredPolicy :: mapState
  realizedMapStateMap :: MapStateMap
  policyMapCalls :: "PolicyMapCall list"

definition deletePolicyKey :: "(PolicyMapCall \<Rightarrow> bool) \<Rightarrow> Key \<Rightarrow> Endpoint \<Rightarrow> bool \<times> Endpoint" where
  "deletePolicyKey fails keyToDelete e =
     (let call = DeleteMapKey keyToDelete;
          e1 = e\<lparr> policyMapCalls := policyMapCalls e @ [call] \<rparr>
      in if fails call then (False, e1)
         else (True, if map_of (realizedMapStateMap e1) keyToDelete \<noteq> None
                     then e1\<lparr> realizedMapStateMap := AList.delete keyToDelete (realizedMapStateMap e1) \<rparr>
                     else e1))"

definition addPolicyKey ::
  "(PolicyMapCall \<Rightarrow> bool) \<Rightarrow> Key \<Rightarrow> MapStateEntry \<Rightarrow> Endpoint \<Rightarrow> bool \<times> Endpoint" where
  "addPolicyKey fails keyToAdd entry e =
     (let call = (if IsDeny entry then DenyKey keyToAdd
                  else AllowKey keyToAdd (HasAuthType entry = ExplicitAuthType) (AuthType entry)
                         (ProxyPort entry));
          e1 = e\<lparr> policyMapCalls := policyMapCalls e @ [call] \<rparr>
      in if fails call then (False, e1)
         else (True, e1\<lparr> realizedMapStateMap := AList.update keyToAdd entry (realizedMapStateMap e1) \<rparr>))"

record MapChange =
  Add :: bool
  ChangeKey :: Key
  Value :: MapStateEntry

text \<open>The variables of \<open>syncPolicyMapWith\<close>, with the map \<open>realized\<close> it is given.\<close>

record SyncState =
  realized :: MapStateMap
  endpoint :: Endpoint
  errors :: nat
  diffCount :: nat
  diffs :: "MapChange list"

text \<open>The body of the first loop, called by \<open>ForEach\<close> for every desired entry.\<close>

definition syncAdd ::
  "(PolicyMapCall \<Rightarrow> bool) \<Rightarrow> bool \<Rightarrow> Key \<times> MapStateEntry \<Rightarrow> SyncState \<Rightarrow> SyncState" where
  "syncAdd fails withDiffs kv st =
     (let keyToAdd = fst kv; entry = snd kv
      in if (case map_of (realized st) keyToAdd of
               None \<Rightarrow> True
             | Some oldEntry \<Rightarrow> \<not> Equal oldEntry entry)
         then
           (let (ok, e1) = addPolicyKey fails keyToAdd entry (endpoint st)
            in st\<lparr> realized := AList.update keyToAdd entry (realized st),
                   endpoint := e1,
                   errors := (if \<not> ok then errors st + 1 else errors st),
                   diffCount := diffCount st + 1,
                   diffs := (if withDiffs
                             then diffs st @ [\<lparr> Add = True, ChangeKey = keyToAdd, Value = entry \<rparr>]
                             else diffs st) \<rparr>)
         else st)"

text \<open>
  The body of the second loop, for every key of \<open>realized\<close>; the entry of the recorded
  diff is the zero value that the failed \<open>Get\<close> returned.
\<close>

definition syncDelete ::
  "(PolicyMapCall \<Rightarrow> bool) \<Rightarrow> bool \<Rightarrow> Key \<Rightarrow> SyncState \<Rightarrow> SyncState" where
  "syncDelete fails withDiffs keyToDelete st =
     (case Get (desiredPolicy (endpoint st)) keyToDelete of
        Some entry \<Rightarrow> st
      | None \<Rightarrow>
          (let entry = \<lparr> Listener = [], ProxyPort = 0, IsDeny = False,
                         HasAuthType = DefaultAuthType, AuthType = 0 \<rparr>;
               (ok, e1) = deletePolicyKey fails keyToDelete (endpoint st)
           in st\<lparr> realized := AList.delete keyToDelete (realized st),
                  endpoint := e1,
                  errors := (if \<not> ok then errors st + 1 else errors st),
                  diffCount := diffCount st + 1,
                  diffs := (if withDiffs
                            then diffs st @ [\<lparr> Add = False, ChangeKey = keyToDelete, Value = entry \<rparr>]
                            else diffs st) \<rparr>))"

text \<open>
  \<open>syncPolicyMapWith\<close>: the result holds \<open>diffCount\<close> and \<open>diffs\<close>; the returned error is
  non-nil when \<open>errors\<close> is positive (\<open>syncFailed\<close>).
\<close>

definition syncPolicyMapWith ::
  "(PolicyMapCall \<Rightarrow> bool) \<Rightarrow> MapStateMap \<Rightarrow> bool \<Rightarrow> Endpoint \<Rightarrow> SyncState" where
  "syncPolicyMapWith fails realized0 withDiffs e =
     (let st0 = \<lparr> realized = realized0, endpoint = e, errors = 0, diffCount = 0, diffs = [] \<rparr>;
          st1 = fold (syncAdd fails withDiffs)
                  (map (\<lambda>(k, v). (k, MapStateEntry v)) (entries (desiredPolicy e))) st0
      in fold (syncDelete fails withDiffs) (map fst (realized st1)) st1)"

definition syncFailed :: "SyncState \<Rightarrow> bool" where
  "syncFailed st = (errors st > 0)"

definition isWrite :: "PolicyMapCall \<Rightarrow> bool" where
  "isWrite c = (case c of DeleteMapKey k \<Rightarrow> False | _ \<Rightarrow> True)"

section \<open>Invariants and scenarios\<close>

text \<open>Invariant I1 once more, with quantifiers over keys instead of list traversals.\<close>

definition I1 :: "mapState \<Rightarrow> bool" where
  "I1 msm =
     (distinct (map fst (entries msm)) \<and> distinct (map fst (trie msm)) \<and>
      (\<forall>k. map_of (entries msm) k \<noteq> None \<longrightarrow>
         (\<exists>ids. map_of (trie msm) (LPMKey k) = Some ids \<and> Identity k \<in> set ids)) \<and>
      (\<forall>p ids. map_of (trie msm) p = Some ids \<longrightarrow>
         ids \<noteq> [] \<and> distinct ids \<and>
         (\<forall>nid \<in> set ids. map_of (entries msm) (WithIdentity p nid) \<noteq> None)))"

text \<open>
  Invariant I2 with quantifiers over keys: no allow entry at a key that a deny entry
  covers. A map state \<open>ms'\<close> is below \<open>ms\<close> in polarity when each of its keys is a key of
  \<open>ms\<close> with an entry of the same \<open>IsDeny\<close>: deleting keys and overwriting the auth type
  of entries lead to such a map state.
\<close>

definition I2 :: "mapState \<Rightarrow> bool" where
  "I2 ms = (\<forall>a va d vd. Lookup ms a = Some va \<and> Lookup ms d = Some vd \<and>
               IsDeny (MapStateEntry vd) \<and> shadows d a \<longrightarrow> IsDeny (MapStateEntry va))"

definition sub_polarity :: "mapState \<Rightarrow> mapState \<Rightarrow> bool" where
  "sub_polarity ms' ms = (\<forall>k v'. Lookup ms' k = Some v' \<longrightarrow>
      (\<exists>v. Lookup ms k = Some v \<and> IsDeny (MapStateEntry v') = IsDeny (MapStateEntry v)))"

text \<open>
  The keys and entries of the end-to-end scenarios: ingress TCP port 80 with all 16 port
  bits, ingress TCP with any port, and a TCP key with wildcard port but prefix length 8,
  which violates invariant I4.
\<close>

definition tcp80 :: LPMKey where
  "tcp80 = \<lparr> TrafficDirection = Ingress, Nexthdr = 6, DestPort = 80, PortPrefixLen = 16 \<rparr>"

definition tcpAny :: LPMKey where
  "tcpAny = \<lparr> TrafficDirection = Ingress, Nexthdr = 6, DestPort = 0, PortPrefixLen = 0 \<rparr>"

definition tcpBad :: LPMKey where
  "tcpBad = \<lparr> TrafficDirection = Ingress, Nexthdr = 6, DestPort = 0, PortPrefixLen = 8 \<rparr>"

definition allowEntry :: "MapStateOwner \<Rightarrow> mapStateEntry" where
  "allowEntry cs = newMapStateEntry cs [] 0 [] 0 False DefaultAuthType 0"

definition denyEntry :: "MapStateOwner \<Rightarrow> mapStateEntry" where
  "denyEntry cs = newMapStateEntry cs [] 0 [] 0 True DefaultAuthType 0"

text \<open>The redirect of an entry: proxy port, listener and priority.\<close>

definition redirect :: "mapStateEntry \<Rightarrow> 16 word \<times> string \<times> 16 word" where
  "redirect e = (ProxyPort (MapStateEntry e), Listener (MapStateEntry e), priority e)"

text \<open>
  Scenario S4: on the empty map state and a fresh \<open>ChangeState\<close>, add \<open>k1\<close>, add \<open>k2\<close>,
  then delete \<open>k1\<close> unconditionally.
\<close>

definition batch_S4 :: "Key \<Rightarrow> mapStateEntry \<Rightarrow> Key \<Rightarrow> mapStateEntry \<Rightarrow> mapState \<times> ChangeState" where
  "batch_S4 k1 e1 k2 e2 =
     (let (b1, ms1, cs1) = addKeyWithChanges k1 e1 newChangeState newMapState;
          (b2, ms2, cs2) = addKeyWithChanges k2 e2 cs1 ms1
      in deleteKeyWithChanges k1 None cs2 ms2)"

text \<open>
  The relation between the map state \<open>ms0\<close> at the start of a batch, the current map state
  and the \<open>ChangeState\<close> of the batch that lets \<open>revertChanges\<close> go back: \<open>old\<close> holds the
  original entry of every key it records; a key that is neither in \<open>old\<close> nor in \<open>Adds\<close>
  still has its original entry; a key in \<open>Adds\<close> but not in \<open>old\<close> was absent.
\<close>

definition oldMap :: "ChangeState \<Rightarrow> Key \<Rightarrow> mapStateEntry option" where
  "oldMap cs = map_of (range_old (old cs))"

definition revertible :: "mapState \<Rightarrow> mapState \<times> ChangeState \<Rightarrow> bool" where
  "revertible ms0 st =
     (case st of (ms, cs) \<Rightarrow>
        Adds cs \<noteq> None \<and> old cs \<noteq> None \<and> distinct (map fst (range_old (old cs))) \<and>
        (\<forall>k. case oldMap cs k of
                Some v \<Rightarrow> Lookup ms0 k = Some v
              | None \<Rightarrow> if has_key (Adds cs) k then Lookup ms0 k = None
                        else Lookup ms k = Lookup ms0 k))"

definition Inv :: "mapState \<Rightarrow> mapState \<times> ChangeState \<Rightarrow> bool" where
  "Inv ms0 st = (I1 (fst st) \<and> revertible ms0 st)"

text \<open>
  What the walk of \<open>authPreferredInsert\<close> does to an entry it passes, and which entries
  it passes: allow entries with a default auth type.
\<close>

definition setAuthType :: "AuthType \<Rightarrow> mapStateEntry \<Rightarrow> mapStateEntry" where
  "setAuthType a v = v\<lparr> MapStateEntry := (MapStateEntry v)\<lparr> AuthType := a \<rparr> \<rparr>"

definition defaultAllow :: "Key \<times> mapStateEntry \<Rightarrow> bool" where
  "defaultAllow kv =
     (\<not> IsDeny (MapStateEntry (snd kv)) \<and> HasAuthType (MapStateEntry (snd kv)) = DefaultAuthType)"

text \<open>
  Scenarios S1 and S2: an allow entry with an explicit auth type, the map state holding
  the allow entry for identity 10 on TCP port 80, and the map state holding the deny
  entry for any identity on any TCP port.
\<close>

definition explicitAuthEntry :: "MapStateOwner \<Rightarrow> AuthType \<Rightarrow> mapStateEntry" where
  "explicitAuthEntry cs a = newMapStateEntry cs [] 0 [] 0 False ExplicitAuthType a"

definition state_A :: mapState where
  "state_A = upsert (WithIdentity tcp80 10) (allowEntry (Some 1)) newMapState"

definition state_D :: mapState where
  "state_D = upsert (WithIdentity tcpAny 0) (denyEntry (Some 2)) newMapState"


text \<open>
  A desired policy whose only entry, for identity 10 on TCP port 80, is an allow entry
  with the explicit auth type 0 (authentication disabled), and its endpoint.
\<close>

definition state_E :: mapState where
  "state_E = upsert (WithIdentity tcp80 10) (explicitAuthEntry (Some 1) 0) newMapState"

definition endpoint_S6 :: Endpoint where
  "endpoint_S6 = \<lparr> desiredPolicy = state_E, realizedMapStateMap = [], policyMapCalls = [] \<rparr>"

text \<open>
  The reconciler's first loop writes a desired entry when the realized map has no
  \<open>Equal\<close> entry for its key (\<open>needsWrite\<close>), with the call \<open>writeCall\<close> on the external
  map; \<open>desiredEntries\<close> are the exported entries that \<open>ForEach\<close> visits. Scenario S5 has
  one desired key and another realized key.
\<close>

definition needsWrite :: "MapStateMap \<Rightarrow> Key \<times> MapStateEntry \<Rightarrow> bool" where
  "needsWrite r kv =
     (case map_of r (fst kv) of None \<Rightarrow> True | Some oldEntry \<Rightarrow> \<not> Equal oldEntry (snd kv))"

definition writeCall :: "Key \<times> MapStateEntry \<Rightarrow> PolicyMapCall" where
  "writeCall kv =
     (if IsDeny (snd kv) then DenyKey (fst kv)
      else AllowKey (fst kv) (HasAuthType (snd kv) = ExplicitAuthType) (AuthType (snd kv))
             (ProxyPort (snd kv)))"

definition desiredEntries :: "Endpoint \<Rightarrow> (Key \<times> MapStateEntry) list" where
  "desiredEntries e = map (\<lambda>(k, v). (k, MapStateEntry v)) (entries (desiredPolicy e))"

definition endpoint_S5 :: Endpoint where
  "endpoint_S5 = \<lparr> desiredPolicy = state_D, realizedMapStateMap = [], policyMapCalls = [] \<rparr>"

definition realized_S5 :: MapStateMap where
  "realized_S5 = [(WithIdentity tcp80 10, MapStateEntry (allowEntry None))]"

section \<open>Merging entries\<close>

lemma MergeSorted_Nil2: "MergeSorted xs [] = xs"
  by (cases xs) simp_all

text \<open>
  C10. Merging two deny entries at the same key leaves \<open>IsDeny\<close>, \<open>ProxyPort\<close>, \<open>Listener\<close>,
  \<open>HasAuthType\<close>, \<open>AuthType\<close> and \<open>priority\<close> of the existing entry as they were; the owners
  become the union of both owner sets and the rule labels the sorted merge of both lists.
\<close>

theorem merge_deny_frame:
  assumes "IsDeny (MapStateEntry e)" and "IsDeny (MapStateEntry entry)"
  shows "MapStateEntry (merge e entry) = MapStateEntry e
       \<and> priority (merge e entry) = priority e
       \<and> owners (merge e entry) = owners e \<union> owners entry
       \<and> derivedFromRules (merge e entry) = MergeSorted (derivedFromRules e) (derivedFromRules entry)"
  using assms by (simp add: merge_def Let_def MergeSorted_Nil2)

theorem merge_deny_frame_witness:
  "IsDeny (MapStateEntry (newMapStateEntry (Some 1) [1, 4] 0 [] 0 True DefaultAuthType 0))
 \<and> IsDeny (MapStateEntry (newMapStateEntry (Some 2) [2, 4] 0 [] 0 True DefaultAuthType 0))
 \<and> owners (merge (newMapStateEntry (Some 1) [1, 4] 0 [] 0 True DefaultAuthType 0)
                  (newMapStateEntry (Some 2) [2, 4] 0 [] 0 True DefaultAuthType 0))
     = {Some 1, Some 2}
 \<and> derivedFromRules (merge (newMapStateEntry (Some 1) [1, 4] 0 [] 0 True DefaultAuthType 0)
                            (newMapStateEntry (Some 2) [2, 4] 0 [] 0 True DefaultAuthType 0))
     = [1, 2, 4]"
proof -
  let ?a = "newMapStateEntry (Some 1) [1, 4] 0 [] 0 True DefaultAuthType 0"
  let ?b = "newMapStateEntry (Some 2) [2, 4] 0 [] 0 True DefaultAuthType 0"
  have a: "IsDeny (MapStateEntry ?a)" by (simp add: newMapStateEntry_def)
  have b: "IsDeny (MapStateEntry ?b)" by (simp add: newMapStateEntry_def)
  have o: "owners ?a \<union> owners ?b = {Some 1, Some 2}"
    by (auto simp: newMapStateEntry_def)
  have d: "MergeSorted (derivedFromRules ?a) (derivedFromRules ?b) = [1, 2, 4]"
    by (simp add: newMapStateEntry_def)
  from merge_deny_frame [OF a b] a b o d show ?thesis by simp
qed

text \<open>
  C6. Merging two allow entries chooses the redirect by priority: a redirect beats no
  redirect; between two redirects the lower priority value wins and, on equal priority,
  the lower proxy port; a redirect created without a priority has its proxy port as
  priority. The witness is scenario S3.
\<close>

theorem merge_redirect_by_priority:
  assumes "\<not> IsDeny (MapStateEntry e)" and "\<not> IsDeny (MapStateEntry entry)"
  shows "(\<not> IsRedirectEntry (MapStateEntry entry) \<longrightarrow> redirect (merge e entry) = redirect e)
       \<and> (IsRedirectEntry (MapStateEntry entry) \<and> \<not> IsRedirectEntry (MapStateEntry e) \<longrightarrow>
            redirect (merge e entry) = redirect entry)
       \<and> (IsRedirectEntry (MapStateEntry entry) \<and> IsRedirectEntry (MapStateEntry e) \<longrightarrow>
            redirect (merge e entry) =
              (if priority entry < priority e then redirect entry
               else if priority e < priority entry then redirect e
               else if ProxyPort (MapStateEntry entry) < ProxyPort (MapStateEntry e) then redirect entry
               else redirect e))
       \<and> (proxyPort \<noteq> 0 \<longrightarrow>
            priority (newMapStateEntry cs lbls proxyPort listener 0 deny hasAuth authType) = proxyPort)"
  using assms
  by (auto simp: merge_def Let_def redirect_def newMapStateEntry_def)

theorem merge_redirect_by_priority_witness:
  "\<not> IsDeny (MapStateEntry (newMapStateEntry None [] 8080 ''L1'' 0 False DefaultAuthType 0))
 \<and> \<not> IsDeny (MapStateEntry (newMapStateEntry None [] 9090 ''L2'' 0 False DefaultAuthType 0))
 \<and> redirect (merge (newMapStateEntry None [] 8080 ''L1'' 0 False DefaultAuthType 0)
                    (newMapStateEntry None [] 9090 ''L2'' 0 False DefaultAuthType 0))
     = (8080, ''L1'', 8080)
 \<and> redirect (merge (newMapStateEntry None [] 9090 ''L2'' 0 False DefaultAuthType 0)
                    (newMapStateEntry None [] 8080 ''L1'' 0 False DefaultAuthType 0))
     = (8080, ''L1'', 8080)"
proof -
  let ?a = "newMapStateEntry None [] 8080 ''L1'' 0 False DefaultAuthType 0"
  let ?b = "newMapStateEntry None [] 9090 ''L2'' 0 False DefaultAuthType 0"
  have a: "\<not> IsDeny (MapStateEntry ?a)" and b: "\<not> IsDeny (MapStateEntry ?b)"
    by (simp_all add: newMapStateEntry_def)
  have ra: "redirect ?a = (8080, ''L1'', 8080)" and rb: "redirect ?b = (9090, ''L2'', 9090)"
    by (simp_all add: newMapStateEntry_def redirect_def)
  have r: "IsRedirectEntry (MapStateEntry ?a)" "IsRedirectEntry (MapStateEntry ?b)"
    "priority ?a = 8080" "priority ?b = 9090"
    by (simp_all add: newMapStateEntry_def IsRedirectEntry_def)
  have lt: "(8080::16 word) < 9090" "\<not> (9090::16 word) < 8080" by simp_all
  from merge_redirect_by_priority [OF a b, of 0] r lt ra
  have 1: "redirect (merge ?a ?b) = (8080, ''L1'', 8080)" by simp
  from merge_redirect_by_priority [OF b a, of 0] r lt ra
  have 2: "redirect (merge ?b ?a) = (8080, ''L1'', 8080)" by simp
  from a b 1 2 show ?thesis by blast
qed


section \<open>Consistency of trie and entries\<close>

lemma WithIdentity_sel [simp]:
  "LPMKey (WithIdentity p i) = p" "Identity (WithIdentity p i) = i"
  by (simp_all add: WithIdentity_def)

lemma WithIdentity_eta [simp]: "WithIdentity (LPMKey k) (Identity k) = k"
  by (simp add: WithIdentity_def)

lemma WithIdentity_eq_iff: "WithIdentity p i = k \<longleftrightarrow> p = LPMKey k \<and> i = Identity k"
  by (cases k) (auto simp: WithIdentity_def)

lemma list_all_alist:
  assumes "distinct (map fst xs)"
  shows "list_all (\<lambda>(k, v). P k v) xs = (\<forall>k v. map_of xs k = Some v \<longrightarrow> P k v)"
  using assms by (auto simp: list_all_iff dest: map_of_SomeD)

lemma list_all_alist_keys:
  "list_all (\<lambda>(k, v). Q k) xs = (\<forall>k. map_of xs k \<noteq> None \<longrightarrow> Q k)"
proof -
  have "(\<forall>k. map_of xs k \<noteq> None \<longrightarrow> Q k) = (\<forall>k \<in> fst ` set xs. Q k)"
    by (simp add: map_of_eq_None_iff) blast
  also have "\<dots> = list_all (\<lambda>(k, v). Q k) xs"
    by (auto simp: list_all_iff)
  finally show ?thesis by simp
qed

lemma tc_entries_part:
  "list_all (\<lambda>(k, v). case map_of t (LPMKey k) of None \<Rightarrow> False
        | Some ids \<Rightarrow> Identity k \<in> set ids) es
    = (\<forall>k. map_of es k \<noteq> None \<longrightarrow>
        (\<exists>ids. map_of t (LPMKey k) = Some ids \<and> Identity k \<in> set ids))"
  (is "?L = ?R")
proof -
  let ?Q = "\<lambda>k. \<exists>ids. map_of t (LPMKey k) = Some ids \<and> Identity k \<in> set ids"
  have "?L = list_all (\<lambda>(k, v). ?Q k) es"
    by (rule arg_cong [where f = "\<lambda>P. list_all P es"])
       (auto simp: fun_eq_iff split: option.splits)
  also have "\<dots> = ?R"
    by (rule list_all_alist_keys)
  finally show ?thesis .
qed

lemma tc_trie_part:
  assumes "distinct (map fst t)"
  shows "list_all (\<lambda>(p, ids). ids \<noteq> [] \<and> distinct ids \<and>
                  list_all (\<lambda>nid. map_of es (WithIdentity p nid) \<noteq> None) ids) t
    = (\<forall>p ids. map_of t p = Some ids \<longrightarrow>
        ids \<noteq> [] \<and> distinct ids \<and>
        (\<forall>nid \<in> set ids. map_of es (WithIdentity p nid) \<noteq> None))"
  using list_all_alist [OF assms, of "\<lambda>p ids. ids \<noteq> [] \<and> distinct ids \<and>
                  list_all (\<lambda>nid. map_of es (WithIdentity p nid) \<noteq> None) ids"]
  by (simp add: list_all_iff)

lemma trie_consistent_iff: "trie_consistent msm = I1 msm"
proof (cases "distinct (map fst (trie msm))")
  case True
  show ?thesis
    unfolding trie_consistent_def I1_def tc_entries_part tc_trie_part [OF True]
    by (rule refl)
next
  case False
  then show ?thesis by (simp add: trie_consistent_def I1_def)
qed

lemma List_insert_not_Nil [simp]: "List.insert x xs \<noteq> []"
  by (auto simp: List.insert_def)

lemmas alist_simps = AList.update_conv' AList.delete_conv' AList.distinct_update AList.distinct_delete

lemma I1_upsert: assumes "I1 ms" shows "I1 (upsert k e ms)"
proof (cases "map_of (entries ms) k = None")
  case False
  then have u: "entries (upsert k e ms) = AList.update k e (entries ms)"
    "trie (upsert k e ms) = trie ms"
    by (simp_all add: upsert_def Let_def)
  have d: "\<And>k'. (((map_of (entries ms))(k \<mapsto> e)) k' \<noteq> None) = (map_of (entries ms) k' \<noteq> None)"
    using False by auto
  show ?thesis using assms unfolding I1_def u
    by (simp only: alist_simps d) blast
next
  case True
  let ?p = "LPMKey k"
  let ?ids = "case map_of (trie ms) ?p of None \<Rightarrow> [] | Some ids \<Rightarrow> ids"
  have u: "entries (upsert k e ms) = AList.update k e (entries ms)"
      "trie (upsert k e ms) = AList.update ?p (List.insert (Identity k) ?ids) (trie ms)"
    using True by (simp_all add: upsert_def Let_def ExactLookup_def Upsert_def split: option.splits)
  have a1: "distinct (map fst (entries ms))" and a2: "distinct (map fst (trie ms))"
    and a3: "\<And>k'. map_of (entries ms) k' \<noteq> None \<Longrightarrow>
        \<exists>ids. map_of (trie ms) (LPMKey k') = Some ids \<and> Identity k' \<in> set ids"
    and a4: "\<And>p ids. map_of (trie ms) p = Some ids \<Longrightarrow> ids \<noteq> [] \<and> distinct ids \<and>
        (\<forall>nid \<in> set ids. map_of (entries ms) (WithIdentity p nid) \<noteq> None)"
    using assms unfolding I1_def by blast+
  have b3: "\<exists>ids. ((map_of (trie ms))(?p \<mapsto> List.insert (Identity k) ?ids)) (LPMKey k') = Some ids
                 \<and> Identity k' \<in> set ids"
    if "((map_of (entries ms))(k \<mapsto> e)) k' \<noteq> None" for k'
  proof (cases "k' = k")
    case True then show ?thesis by simp
  next
    case False
    with that have "map_of (entries ms) k' \<noteq> None" by simp
    from a3 [OF this] show ?thesis by (auto split: option.splits)
  qed
  have b4: "ids \<noteq> [] \<and> distinct ids \<and>
        (\<forall>nid \<in> set ids. ((map_of (entries ms))(k \<mapsto> e)) (WithIdentity p nid) \<noteq> None)"
    if "((map_of (trie ms))(?p \<mapsto> List.insert (Identity k) ?ids)) p = Some ids" for p ids
  proof (cases "p = ?p")
    case False
    with that have "map_of (trie ms) p = Some ids" by simp
    from a4 [OF this] show ?thesis by auto
  next
    case True
    with that have i: "ids = List.insert (Identity k) ?ids" by simp
    show ?thesis
    proof (cases "map_of (trie ms) ?p")
      case None
      then show ?thesis using i True by simp
    next
      case (Some old)
      from a4 [OF Some] show ?thesis using i True Some
        by (auto simp: WithIdentity_eq_iff)
    qed
  qed
  have d1: "distinct (map fst (AList.update k e (entries ms)))"
    using a1 by (rule AList.distinct_update)
  have d2: "distinct (map fst (AList.update ?p (List.insert (Identity k) ?ids) (trie ms)))"
    using a2 by (rule AList.distinct_update)
  show ?thesis unfolding I1_def u AList.update_conv'
    using d1 d2 b3 b4 by blast
qed

lemma I1_delete: assumes "I1 ms" shows "I1 (delete_ms k ms)"
proof (cases "map_of (entries ms) k = None")
  case True
  then show ?thesis using assms by (simp add: delete_ms_def)
next
  case False
  let ?p = "LPMKey k"
  have a1: "distinct (map fst (entries ms))" and a2: "distinct (map fst (trie ms))"
    and a3: "\<And>k'. map_of (entries ms) k' \<noteq> None \<Longrightarrow>
        \<exists>ids. map_of (trie ms) (LPMKey k') = Some ids \<and> Identity k' \<in> set ids"
    and a4: "\<And>p ids. map_of (trie ms) p = Some ids \<Longrightarrow> ids \<noteq> [] \<and> distinct ids \<and>
        (\<forall>nid \<in> set ids. map_of (entries ms) (WithIdentity p nid) \<noteq> None)"
    using assms unfolding I1_def by blast+
  from a3 [OF False] obtain old where old: "map_of (trie ms) ?p = Some old" "Identity k \<in> set old"
    by blast
  let ?ids = "removeAll (Identity k) old"
  let ?T = "if ?ids = [] then (map_of (trie ms))(?p := None) else (map_of (trie ms))(?p \<mapsto> ?ids)"
  have u: "entries (delete_ms k ms) = AList.delete k (entries ms)"
    "map_of (trie (delete_ms k ms)) = ?T"
    "distinct (map fst (trie (delete_ms k ms)))"
    using False old a2
    by (simp_all add: delete_ms_def Let_def ExactLookup_def Upsert_def Delete_def alist_simps)
  have b3: "\<exists>ids. ?T (LPMKey k') = Some ids \<and> Identity k' \<in> set ids"
    if "((map_of (entries ms))(k := None)) k' \<noteq> None" for k'
  proof -
    from that have n: "k' \<noteq> k" and "map_of (entries ms) k' \<noteq> None" by (auto split: if_splits)
    from a3 [OF this(2)] obtain ids where ids: "map_of (trie ms) (LPMKey k') = Some ids"
      "Identity k' \<in> set ids" by blast
    show ?thesis
    proof (cases "LPMKey k' = ?p")
      case False then show ?thesis using ids by simp
    next
      case True
      with n have "Identity k' \<noteq> Identity k" by (cases k, cases k') auto
      with True ids old have m: "Identity k' \<in> set ?ids" by simp
      then have "?ids \<noteq> []" by (metis empty_iff empty_set)
      with m True show ?thesis by (simp del: set_removeAll)
    qed
  qed
  have b4: "ids \<noteq> [] \<and> distinct ids \<and>
        (\<forall>nid \<in> set ids. ((map_of (entries ms))(k := None)) (WithIdentity p nid) \<noteq> None)"
    if "?T p = Some ids" for p ids
  proof (cases "p = ?p")
    case False
    with that have "map_of (trie ms) p = Some ids" by (simp split: if_splits)
    from a4 [OF this] False show ?thesis by (auto simp: WithIdentity_eq_iff)
  next
    case True
    with that have i: "ids = ?ids" "?ids \<noteq> []" by (auto split: if_splits)
    from a4 [OF old(1)] show ?thesis using i True
      by (auto simp: WithIdentity_eq_iff distinct_removeAll)
  qed
  have d1: "distinct (map fst (AList.delete k (entries ms)))"
    using a1 by (rule AList.distinct_delete)
  show ?thesis unfolding I1_def u AList.delete_conv'
    using d1 u(3) b3 b4 by blast
qed

lemma Lookup_upsert: "Lookup (upsert k e ms) = (Lookup ms)(k \<mapsto> e)"
  by (simp add: fun_eq_iff Lookup_def upsert_def Let_def AList.update_conv' split: option.splits)

lemma Lookup_delete: "Lookup (delete_ms k ms) = (Lookup ms)(k := None)"
  by (auto simp: Lookup_def delete_ms_def Let_def AList.delete_conv' fun_eq_iff split: option.splits)

lemma Lookup_updateExisting: "Lookup (updateExisting k e ms) = (Lookup ms)(k \<mapsto> e)"
  by (simp add: fun_eq_iff Lookup_def updateExisting_def AList.update_conv')



lemmas ex_defs = tcp80_def tcpAny_def tcpBad_def allowEntry_def denyEntry_def WithIdentity_def
  newMapStateEntry_def newMapState_def newChangeState_def
lemmas ms_defs = upsert_def delete_ms_def insert_ms_def updateExisting_def Lookup_def get_def
  ExactLookup_def Upsert_def Delete_def Let_def mutations_def



section \<open>Invalid keys\<close>

text \<open>
  C9, as stated, fails: inserting a key with wildcard port and non-zero prefix length into
  the empty map state changes the state.
\<close>

theorem insert_invalid_key_changes_state:
  "invalidPortPrefix (WithIdentity tcpBad 10)
 \<and> insert_ms (WithIdentity tcpBad 10) (allowEntry None) newMapState \<noteq> newMapState
 \<and> Lookup (insert_ms (WithIdentity tcpBad 10) (allowEntry None) newMapState) (WithIdentity tcpBad 10)
     = Some (allowEntry None)"
  by (simp add: ex_defs ms_defs invalidPortPrefix_def)

text \<open>
  C9, amended. For a key with \<open>DestPort = 0\<close> and \<open>PortPrefixLen > 0\<close>, \<open>insert\<close> logs the
  error and then upserts the key as it does for any other key: afterwards the key maps to
  the inserted entry and every other key is as before.
\<close>

theorem insert_invalid_key_upserts:
  assumes "invalidPortPrefix k"
  shows "insert_log k = [''mapState.insert: invalid port prefix length for wildcard port'']
       \<and> insert_ms k v ms = upsert k v ms
       \<and> Lookup (insert_ms k v ms) k = Some v
       \<and> (\<forall>k'. k' \<noteq> k \<longrightarrow> Lookup (insert_ms k v ms) k' = Lookup ms k')"
  using assms by (simp add: insert_log_def insert_ms_def Lookup_upsert)

theorem insert_invalid_key_upserts_witness:
  "invalidPortPrefix (WithIdentity tcpBad 10)
 \<and> insert_log (WithIdentity tcpBad 10) = [''mapState.insert: invalid port prefix length for wildcard port'']
 \<and> Lookup (insert_ms (WithIdentity tcpBad 10) (denyEntry None) newMapState) (WithIdentity tcpBad 10)
     = Some (denyEntry None)"
proof -
  have h: "invalidPortPrefix (WithIdentity tcpBad 10)"
    by (simp add: invalidPortPrefix_def tcpBad_def WithIdentity_def)
  from insert_invalid_key_upserts [OF h, of "denyEntry None" newMapState] h
  show ?thesis by blast
qed


lemmas cs_defs = addKeyWithChanges_def deleteKeyWithChanges_def recordAdd_def recordDelete_def
  insertOldIfNotExists_def has_key_def range_keys_def range_old_def revertChanges_def

section \<open>Scenario S4\<close>

text \<open>
  C4, as stated, fails: after adding two keys and deleting the first, the first key is
  recorded in \<open>Deletes\<close>.
\<close>

theorem batch_S4_deletes_nonempty:
  "Deletes (snd (batch_S4 (WithIdentity tcp80 10) (allowEntry (Some 1))
                          (WithIdentity tcp80 11) (allowEntry (Some 1))))
     = Some [WithIdentity tcp80 10]
 \<and> Deletes (snd (batch_S4 (WithIdentity tcp80 10) (allowEntry (Some 1))
                          (WithIdentity tcp80 11) (allowEntry (Some 1)))) \<noteq> Some []"
  by (simp add: batch_S4_def cs_defs ms_defs ex_defs)

lemma Key_eq_iff: "(k1 = k2) = (LPMKey k1 = LPMKey k2 \<and> Identity k1 = Identity k2)"
  for k1 k2 :: Key
  by (cases k1, cases k2) auto

text \<open>
  C4, amended. After adding \<open>k1\<close>, adding \<open>k2\<close> and deleting \<open>k1\<close> unconditionally on an
  empty map state, \<open>Adds\<close> is \<open>{k2}\<close>, \<open>Deletes\<close> is \<open>{k1}\<close>, no old value is recorded, and
  \<open>revertChanges\<close> restores the empty map state.
\<close>

theorem batch_S4_changes:
  assumes "k1 \<noteq> k2"
  shows "Adds (snd (batch_S4 k1 e1 k2 e2)) = Some [k2]
       \<and> Deletes (snd (batch_S4 k1 e1 k2 e2)) = Some [k1]
       \<and> old (snd (batch_S4 k1 e1 k2 e2)) = Some []
       \<and> revertChanges (snd (batch_S4 k1 e1 k2 e2)) (fst (batch_S4 k1 e1 k2 e2)) = newMapState"
proof (cases "LPMKey k1 = LPMKey k2")
  case True
  with assms have "Identity k1 \<noteq> Identity k2" by (simp add: Key_eq_iff)
  with assms True show ?thesis
    by (simp add: batch_S4_def cs_defs ms_defs newMapState_def newChangeState_def List.insert_def)
next
  case False
  with assms show ?thesis
    by (simp add: batch_S4_def cs_defs ms_defs newMapState_def newChangeState_def List.insert_def)
qed


theorem batch_S4_changes_witness:
  "WithIdentity tcp80 10 \<noteq> WithIdentity tcp80 11
 \<and> Adds (snd (batch_S4 (WithIdentity tcp80 10) (allowEntry (Some 1))
                       (WithIdentity tcp80 11) (allowEntry (Some 2)))) = Some [WithIdentity tcp80 11]
 \<and> Deletes (snd (batch_S4 (WithIdentity tcp80 10) (allowEntry (Some 1))
                          (WithIdentity tcp80 11) (allowEntry (Some 2)))) = Some [WithIdentity tcp80 10]
 \<and> revertChanges (snd (batch_S4 (WithIdentity tcp80 10) (allowEntry (Some 1))
                                (WithIdentity tcp80 11) (allowEntry (Some 2))))
                  (fst (batch_S4 (WithIdentity tcp80 10) (allowEntry (Some 1))
                                (WithIdentity tcp80 11) (allowEntry (Some 2)))) = newMapState"
proof -
  have h: "WithIdentity tcp80 10 \<noteq> WithIdentity tcp80 11"
    by (simp add: WithIdentity_def)
  from batch_S4_changes [OF h, of "allowEntry (Some 1)" "allowEntry (Some 2)"] h
  show ?thesis by blast
qed

section \<open>The trie iterators\<close>

lemma eq_WithIdentity_iff: "k = WithIdentity p i \<longleftrightarrow> LPMKey k = p \<and> Identity k = i"
  by (cases k) (auto simp: WithIdentity_def)

lemmas WI = WithIdentity_eq_iff eq_WithIdentity_iff

lemma set_forID: "set (forID k ids) = (if Identity k \<in> set ids then {k} else {})"
  by (simp add: forID_def)

lemma in_forID: "k' \<in> set (forID k ids) \<longleftrightarrow> k' = k \<and> Identity k \<in> set ids"
  by (auto simp: forID_def)

lemma in_forIDs: "k' \<in> set (forIDs p ids) \<longleftrightarrow> LPMKey k' = p \<and> Identity k' \<in> set ids"
  by (auto simp: forIDs_def WI image_iff)

lemma in_BroaderOrEqualKeys:
  "k \<in> set (BroaderOrEqualKeys ms key) \<longleftrightarrow>
     (\<exists>ids. (LPMKey k, ids) \<in> set (trie ms) \<and> Identity k \<in> set ids) \<and>
     IsPrefixOf (LPMKey k) (LPMKey key) \<and> (Identity k = 0 \<or> Identity k = Identity key)"
  unfolding BroaderOrEqualKeys_def AncestorIterator_def
  by (fastforce simp: in_forID WI split: if_splits)

lemma in_NarrowerOrEqualKeys:
  "k \<in> set (NarrowerOrEqualKeys ms key) \<longleftrightarrow>
     (\<exists>ids. (LPMKey k, ids) \<in> set (trie ms) \<and> Identity k \<in> set ids) \<and>
     IsPrefixOf (LPMKey key) (LPMKey k) \<and> (Identity key = 0 \<or> Identity k = Identity key)"
  unfolding NarrowerOrEqualKeys_def DescendantIterator_def
  by (fastforce simp: in_forID in_forIDs WI split: if_splits)

lemma in_CoveringKeysWithSameID:
  "k \<in> set (CoveringKeysWithSameID ms key) \<longleftrightarrow>
     (\<exists>ids. (LPMKey k, ids) \<in> set (trie ms) \<and> Identity k \<in> set ids) \<and>
     IsPrefixOf (LPMKey k) (LPMKey key) \<and> \<not> PortProtoIsEqual (LPMKey k) (LPMKey key) \<and>
     Identity k = Identity key"
  unfolding CoveringKeysWithSameID_def AncestorLongestPrefixFirstIterator_def AncestorIterator_def
  by (fastforce simp: in_forID WI split: if_splits)

lemma in_SubsetKeysWithSameID:
  "k \<in> set (SubsetKeysWithSameID ms key) \<longleftrightarrow>
     (\<exists>ids. (LPMKey k, ids) \<in> set (trie ms) \<and> Identity k \<in> set ids) \<and>
     IsPrefixOf (LPMKey key) (LPMKey k) \<and> \<not> PortProtoIsEqual (LPMKey k) (LPMKey key) \<and>
     Identity k = Identity key"
  unfolding SubsetKeysWithSameID_def DescendantShortestPrefixFirstIterator_def DescendantIterator_def
  by (fastforce simp: in_forID WI split: if_splits)

lemma I1_in_trie:
  assumes "I1 ms"
  shows "(\<exists>ids. (LPMKey k, ids) \<in> set (trie ms) \<and> Identity k \<in> set ids) \<longleftrightarrow> Lookup ms k \<noteq> None"
proof -
  from assms have dt: "distinct (map fst (trie ms))" by (simp add: I1_def)
  then have e: "\<And>p ids. ((p, ids) \<in> set (trie ms)) = (map_of (trie ms) p = Some ids)" by simp
  show ?thesis unfolding e Lookup_def
  proof
    assume "\<exists>ids. map_of (trie ms) (LPMKey k) = Some ids \<and> Identity k \<in> set ids"
    then obtain ids where i: "map_of (trie ms) (LPMKey k) = Some ids" "Identity k \<in> set ids" by blast
    with assms have "map_of (entries ms) (WithIdentity (LPMKey k) (Identity k)) \<noteq> None"
      unfolding I1_def by blast
    then show "map_of (entries ms) k \<noteq> None" by simp
  next
    assume "map_of (entries ms) k \<noteq> None"
    with assms show "\<exists>ids. map_of (trie ms) (LPMKey k) = Some ids \<and> Identity k \<in> set ids"
      unfolding I1_def by blast
  qed
qed

lemma in_forKey_yield:
  "(k, v) \<in> set (forKey_yield ms ks) \<longleftrightarrow> k \<in> set ks \<and> Lookup ms k = Some v"
  unfolding forKey_yield_def
  by (induction ks) (auto simp: map_filter_simps split: option.splits)

lemma coveredByDeny_iff:
  "coveredByDeny ms newKey newEntry \<longleftrightarrow>
     (\<exists>k v. k \<in> set (BroaderOrEqualKeys ms newKey) \<and> Lookup ms k = Some v \<and>
            IsDeny (MapStateEntry v) \<and> \<not> (IsDeny (MapStateEntry newEntry) \<and> k = newKey))"
  unfolding coveredByDeny_def list_ex_iff
  by (auto simp: in_forKey_yield) 

lemma IsPrefixOf_refl [simp]: "IsPrefixOf p p"
  by (simp add: IsPrefixOf_def)


lemma get_eq_Lookup [simp]: "get ms k = Lookup ms k"
  by (simp add: get_def)

lemma Lookup_insert_ms: "Lookup (insert_ms k e ms) = (Lookup ms)(k \<mapsto> e)"
  by (simp add: insert_ms_def Lookup_upsert)

lemma merge_IsDeny [simp]: "IsDeny (MapStateEntry (merge e entry)) = IsDeny (MapStateEntry e)"
  by (simp add: merge_def Let_def)

lemma Lookup_deleteKey_nil:
  "Lookup (fst (deleteKeyWithChanges k None cs ms)) = (Lookup ms)(k := None)"
  by (auto simp: deleteKeyWithChanges_def Let_def Lookup_delete fun_eq_iff
           split: option.splits prod.splits)

lemma Lookup_addKey:
  "Lookup (fst (snd (addKeyWithChanges key e cs ms))) =
     (case Lookup ms key of
        None \<Rightarrow> (Lookup ms)(key \<mapsto> e)
      | Some oe \<Rightarrow>
          if IsDeny (MapStateEntry oe) = IsDeny (MapStateEntry e)
          then (if deepEqual e oe then Lookup ms else (Lookup ms)(key \<mapsto> merge oe e))
          else if IsDeny (MapStateEntry e) then (Lookup ms)(key \<mapsto> e) else Lookup ms)"
  by (simp add: addKeyWithChanges_def Let_def Lookup_insert_ms Lookup_updateExisting
           split: option.splits)

lemma Lookup_addKey_other:
  "k \<noteq> key \<Longrightarrow> Lookup (fst (snd (addKeyWithChanges key e cs ms))) k = Lookup ms k"
  by (simp add: Lookup_addKey split: option.splits)

lemma Lookup_addKey_deny:
  assumes "IsDeny (MapStateEntry e)"
  shows "\<exists>v. Lookup (fst (snd (addKeyWithChanges key e cs ms))) key = Some v \<and> IsDeny (MapStateEntry v)"
  using assms by (auto simp: Lookup_addKey deepEqual_def Equal_def split: option.splits)

lemma Lookup_deleteCovered:
  "Lookup (fst (deleteCovered ks newKey (ms, cs))) k =
     (if k \<in> set ks \<and> \<not> (k = newKey \<and> (\<exists>v. Lookup ms k = Some v \<and> IsDeny (MapStateEntry v)))
      then None else Lookup ms k)"
proof (induction ks arbitrary: ms cs)
  case Nil
  then show ?case by simp
next
  case (Cons x ks)
  show ?case
  proof (cases "Lookup ms x")
    case None
    then show ?thesis using Cons.IH [of ms cs] by auto
  next
    case (Some v)
    show ?thesis
    proof (cases "IsDeny (MapStateEntry v) \<and> x = newKey")
      case True
      then show ?thesis using Some Cons.IH [of ms cs] by auto
    next
      case False
      obtain ms1 cs1 where d: "deleteKeyWithChanges x None cs ms = (ms1, cs1)"
        by (cases "deleteKeyWithChanges x None cs ms")
      have l: "Lookup ms1 = (Lookup ms)(x := None)"
        using Lookup_deleteKey_nil [of x cs ms] d by simp
      have "Lookup (fst (deleteCovered (x # ks) newKey (ms, cs))) k
          = Lookup (fst (deleteCovered ks newKey (ms1, cs1))) k"
        using Some False d by auto
      also have "\<dots> = (if k \<in> set ks \<and> \<not> (k = newKey \<and> (\<exists>v. Lookup ms1 k = Some v \<and> IsDeny (MapStateEntry v)))
          then None else Lookup ms1 k)"
        by (rule Cons.IH)
      finally show ?thesis using l Some False by auto
    qed
  qed
qed

lemma no_shadowed_allowD:
  assumes "no_shadowed_allow ms" and "Lookup ms a = Some va" and "Lookup ms d = Some vd"
    and "IsDeny (MapStateEntry vd)" and "shadows d a"
  shows "IsDeny (MapStateEntry va)"
proof -
  have a: "(a, va) \<in> set (entries ms)" and d: "(d, vd) \<in> set (entries ms)"
    using assms(2,3) by (auto simp: Lookup_def dest: map_of_SomeD)
  from assms(1) a have "IsDeny (MapStateEntry va) \<or>
      list_all (\<lambda>(d, vd). \<not> (IsDeny (MapStateEntry vd) \<and> shadows d a)) (entries ms)"
    unfolding no_shadowed_allow_def list_all_iff by blast
  with d assms(4,5) show ?thesis unfolding list_all_iff by blast
qed

lemma shadows_refl [simp]: "shadows d d"
  by (simp add: shadows_def)

lemma in_Broader_shadows:
  assumes "I1 ms"
  shows "k \<in> set (BroaderOrEqualKeys ms key) \<longleftrightarrow> Lookup ms k \<noteq> None \<and> shadows k key"
  unfolding in_BroaderOrEqualKeys I1_in_trie [OF assms] shadows_def by auto

lemma in_Narrower_shadows:
  assumes "I1 ms"
  shows "k \<in> set (NarrowerOrEqualKeys ms key) \<longleftrightarrow> Lookup ms k \<noteq> None \<and> shadows key k"
  unfolding in_NarrowerOrEqualKeys I1_in_trie [OF assms] shadows_def by auto



section \<open>Deny precedence\<close>

text \<open>
  C2. If the map state (with consistent trie) holds a deny entry at a key \<open>d\<close> whose
  port/proto prefix is broader than or equal to that of \<open>k\<close> and whose identity is that of
  \<open>k\<close> or the wildcard 0, then \<open>insertWithChanges k e\<close> aborts for every entry \<open>e\<close> that is
  not the identical deny key re-inserted for a merge: entries, trie and \<open>ChangeState\<close> are
  returned unchanged.
\<close>

theorem insert_shadowed_by_deny_aborts:
  assumes "trie_consistent ms"
    and "Lookup ms d = Some vd" and "IsDeny (MapStateEntry vd)"
    and "IsPrefixOf (LPMKey d) (LPMKey k)" and "Identity d = Identity k \<or> Identity d = 0"
    and "\<not> (IsDeny (MapStateEntry e) \<and> d = k)"
  shows "insertWithChanges k e features changes ms = Inr (ms, changes)"
proof -
  from assms(1) have i: "I1 ms" by (simp add: trie_consistent_iff)
  have "shadows d k" using assms(4,5) by (simp add: shadows_def)
  with assms(2) have "d \<in> set (BroaderOrEqualKeys ms k)"
    by (simp add: in_Broader_shadows [OF i])
  with assms(2,3,6) have "coveredByDeny ms k e"
    unfolding coveredByDeny_iff by blast
  then show ?thesis
    by (simp add: insertWithChanges_def denyPreferredInsertWithChanges_def)
qed


section \<open>Reverting a batch of changes\<close>

lemma I1_updateExisting:
  assumes "I1 ms" and "Lookup ms k \<noteq> None"
  shows "I1 (updateExisting k v ms)"
proof -
  have u: "entries (updateExisting k v ms) = AList.update k v (entries ms)"
    "trie (updateExisting k v ms) = trie ms"
    by (simp_all add: updateExisting_def)
  have d: "\<And>k'. (((map_of (entries ms))(k \<mapsto> v)) k' \<noteq> None) = (map_of (entries ms) k' \<noteq> None)"
    using assms(2) by (auto simp: Lookup_def)
  have d1: "distinct (map fst (AList.update k v (entries ms)))"
    using assms(1) by (simp add: I1_def AList.distinct_update)
  show ?thesis using assms(1) d1 unfolding I1_def u AList.update_conv' d by blast
qed

lemma I1_insert_ms: "I1 ms \<Longrightarrow> I1 (insert_ms k v ms)"
  by (simp add: insert_ms_def I1_upsert)

lemma I1_addKey: "I1 ms \<Longrightarrow> I1 (fst (snd (addKeyWithChanges key e cs ms)))"
  by (auto simp: addKeyWithChanges_def Let_def I1_insert_ms I1_updateExisting split: option.splits)

lemma I1_deleteKey: "I1 ms \<Longrightarrow> I1 (fst (deleteKeyWithChanges key owner cs ms))"
  by (auto simp: deleteKeyWithChanges_def Let_def I1_delete I1_updateExisting
           split: option.splits prod.splits)

lemma overrideAuthType_eq:
  "overrideAuthType newEntry k v cs ms =
     (updateExisting k (v\<lparr> MapStateEntry := (MapStateEntry v)\<lparr> AuthType := AuthType (MapStateEntry newEntry) \<rparr> \<rparr>) ms,
      snd (insertOldIfNotExists k v cs))"
  by (simp add: overrideAuthType_def updateExisting_def Let_def)

lemma I1_override:
  "I1 ms \<Longrightarrow> Lookup ms k \<noteq> None \<Longrightarrow> I1 (fst (overrideAuthType newEntry k v cs ms))"
  by (simp add: overrideAuthType_eq I1_updateExisting)

lemma I1_deleteCovered: "I1 ms \<Longrightarrow> I1 (fst (deleteCovered ks newKey (ms, cs)))"
proof (induction ks arbitrary: ms cs)
  case Nil then show ?case by simp
next
  case (Cons x ks)
  show ?case
  proof (cases "Lookup ms x")
    case None then show ?thesis using Cons by simp
  next
    case (Some v)
    obtain ms1 cs1 where d: "deleteKeyWithChanges x None cs ms = (ms1, cs1)"
      by (cases "deleteKeyWithChanges x None cs ms")
    have "I1 ms1" using I1_deleteKey [OF Cons.prems, of x None cs] d by simp
    then show ?thesis using Some d Cons by simp
  qed
qed

lemma I1_propagate: "I1 ms \<Longrightarrow> I1 (fst (propagateAuthType ks newEntry (ms, cs)))"
proof (induction ks arbitrary: ms cs)
  case Nil then show ?case by simp
next
  case (Cons x ks)
  show ?case
  proof (cases "Lookup ms x")
    case None then show ?thesis using Cons by simp
  next
    case (Some v)
    obtain ms1 cs1 where d: "overrideAuthType newEntry x v cs ms = (ms1, cs1)"
      by (cases "overrideAuthType newEntry x v cs ms")
    have "I1 ms1" using I1_override [OF Cons.prems, of x newEntry v cs] Some d by simp
    then show ?thesis using Some d Cons by simp
  qed
qed

lemma oldMap_upd: "oldMap (cs\<lparr> old := Some om \<rparr>) = map_of om"
  by (simp add: oldMap_def range_old_def)

lemma insertOld_snd:
  assumes "old cs \<noteq> None"
  shows "oldMap (snd (insertOldIfNotExists key e cs)) =
           (if oldMap cs key = None \<and> \<not> has_key (Adds cs) key
            then (oldMap cs)(key \<mapsto> e) else oldMap cs)"
    and "old (snd (insertOldIfNotExists key e cs)) \<noteq> None"
    and "distinct (map fst (range_old (old cs))) \<Longrightarrow>
         distinct (map fst (range_old (old (snd (insertOldIfNotExists key e cs)))))"
    and "fst (insertOldIfNotExists key e cs) = (oldMap cs key = None \<and> \<not> has_key (Adds cs) key)"
  using assms
  by (auto simp: insertOldIfNotExists_def oldMap_def range_old_def AList.update_conv'
        AList.distinct_update split: option.splits)

lemma insertOld_Adds [simp]:
  "Adds (snd (insertOldIfNotExists key e cs)) = Adds cs"
  "Deletes (snd (insertOldIfNotExists key e cs)) = Deletes cs"
  by (auto simp: insertOldIfNotExists_def split: option.splits)

lemma recordAdd_simps:
  "old (recordAdd key ex dp cs) = old cs"
  "oldMap (recordAdd key ex dp cs) = oldMap cs"
  "Adds cs \<noteq> None \<Longrightarrow> Adds (recordAdd key ex dp cs) \<noteq> None"
  "Adds cs \<noteq> None \<Longrightarrow> has_key (Adds (recordAdd key ex dp cs)) k =
     (if \<not> ex \<or> \<not> dp then k = key \<or> has_key (Adds cs) k else has_key (Adds cs) k)"
  by (auto simp: recordAdd_def oldMap_def has_key_def split: option.splits)

lemma recordDelete_simps:
  "old (recordDelete key cs) = old cs"
  "oldMap (recordDelete key cs) = oldMap cs"
  "Adds cs \<noteq> None \<Longrightarrow> Adds (recordDelete key cs) \<noteq> None"
  "has_key (Adds (recordDelete key cs)) k =
     (if Deletes cs \<noteq> None then k \<noteq> key \<and> has_key (Adds cs) k else has_key (Adds cs) k)"
  by (auto simp: recordDelete_def oldMap_def has_key_def split: option.splits)

lemma revertibleI:
  assumes "Adds cs \<noteq> None" "old cs \<noteq> None" "distinct (map fst (range_old (old cs)))"
    and "\<And>k v. oldMap cs k = Some v \<Longrightarrow> Lookup ms0 k = Some v"
    and "\<And>k. oldMap cs k = None \<Longrightarrow> has_key (Adds cs) k \<Longrightarrow> Lookup ms0 k = None"
    and "\<And>k. oldMap cs k = None \<Longrightarrow> \<not> has_key (Adds cs) k \<Longrightarrow> Lookup ms k = Lookup ms0 k"
  shows "revertible ms0 (ms, cs)"
  using assms unfolding revertible_def by (auto split: option.splits)

lemma revertibleD:
  assumes "revertible ms0 (ms, cs)"
  shows "Adds cs \<noteq> None" "old cs \<noteq> None" "distinct (map fst (range_old (old cs)))"
    and "\<And>k v. oldMap cs k = Some v \<Longrightarrow> Lookup ms0 k = Some v"
    and "\<And>k. oldMap cs k = None \<Longrightarrow> has_key (Adds cs) k \<Longrightarrow> Lookup ms0 k = None"
    and "\<And>k. oldMap cs k = None \<Longrightarrow> \<not> has_key (Adds cs) k \<Longrightarrow> Lookup ms k = Lookup ms0 k"
proof -
  from assms have a: "\<And>k. case oldMap cs k of
                Some v \<Rightarrow> Lookup ms0 k = Some v
              | None \<Rightarrow> if has_key (Adds cs) k then Lookup ms0 k = None
                        else Lookup ms k = Lookup ms0 k"
    and b: "Adds cs \<noteq> None" "old cs \<noteq> None" "distinct (map fst (range_old (old cs)))"
    unfolding revertible_def by simp_all
  show "Adds cs \<noteq> None" "old cs \<noteq> None" "distinct (map fst (range_old (old cs)))"
    by (rule b)+
  show "Lookup ms0 k = Some v" if "oldMap cs k = Some v" for k v
    using a [of k] that by simp
  show "Lookup ms0 k = None" if "oldMap cs k = None" "has_key (Adds cs) k" for k
    using a [of k] that by simp
  show "Lookup ms k = Lookup ms0 k" if "oldMap cs k = None" "\<not> has_key (Adds cs) k" for k
    using a [of k] that by simp
qed

lemma revertible_insertOld:
  assumes r: "revertible ms0 (ms, cs)" and l: "Lookup ms key = Some v"
  shows "revertible ms0 (ms, snd (insertOldIfNotExists key v cs))"
proof -
  note d = revertibleD [OF r]
  note s = insertOld_snd [OF d(2)]
  show ?thesis
  proof (rule revertibleI)
    show "Adds (snd (insertOldIfNotExists key v cs)) \<noteq> None" using d(1) by simp
    show "old (snd (insertOldIfNotExists key v cs)) \<noteq> None" by (rule s(2))
    show "distinct (map fst (range_old (old (snd (insertOldIfNotExists key v cs)))))"
      using d(3) by (rule s(3))
  next
    fix k w assume "oldMap (snd (insertOldIfNotExists key v cs)) k = Some w"
    then show "Lookup ms0 k = Some w"
      unfolding s(1) using d(4) d(6) [of key] l by (auto split: if_splits)
  next
    fix k assume "oldMap (snd (insertOldIfNotExists key v cs)) k = None"
      "has_key (Adds (snd (insertOldIfNotExists key v cs))) k"
    then show "Lookup ms0 k = None"
      unfolding s(1) using d(5) by (auto split: if_splits)
  next
    fix k assume "oldMap (snd (insertOldIfNotExists key v cs)) k = None"
      "\<not> has_key (Adds (snd (insertOldIfNotExists key v cs))) k"
    then show "Lookup ms k = Lookup ms0 k"
      unfolding s(1) using d(6) by (auto split: if_splits)
  qed
qed

lemma insertOld_tracked:
  assumes "old cs \<noteq> None"
  shows "oldMap (snd (insertOldIfNotExists key v cs)) key \<noteq> None \<or> has_key (Adds cs) key"
  unfolding insertOld_snd(1) [OF assms] by auto

lemma revertible_change_tracked:
  assumes r: "revertible ms0 (ms, cs)"
    and t: "oldMap cs key \<noteq> None \<or> has_key (Adds cs) key"
    and l: "\<And>k. k \<noteq> key \<Longrightarrow> Lookup ms' k = Lookup ms k"
  shows "revertible ms0 (ms', cs)"
proof -
  note d = revertibleD [OF r]
  show ?thesis
  proof (rule revertibleI)
    fix k assume "oldMap cs k = None" "\<not> has_key (Adds cs) k"
    with t have "k \<noteq> key" by auto
    with l d(6) \<open>oldMap cs k = None\<close> \<open>\<not> has_key (Adds cs) k\<close>
    show "Lookup ms' k = Lookup ms0 k" by simp
  qed (use d in auto)
qed

lemma revertible_cong:
  assumes r: "revertible ms0 (ms, cs)"
    and "Adds cs' = Adds cs" "old cs' \<noteq> None" "distinct (map fst (range_old (old cs')))"
    and "oldMap cs' = oldMap cs"
  shows "revertible ms0 (ms, cs')"
  using revertibleD [OF r] assms(2-) by (intro revertibleI) auto

lemma revertible_recordAdd_tracked:
  assumes r: "revertible ms0 (ms, cs)"
    and t: "oldMap cs key \<noteq> None \<or> has_key (Adds cs) key"
  shows "revertible ms0 (ms, recordAdd key ex dp cs)"
proof -
  note d = revertibleD [OF r]
  note s = recordAdd_simps(1,2) [of key ex dp cs] recordAdd_simps(3,4) [OF d(1), of key ex dp]
  show ?thesis
  proof (rule revertibleI)
    fix k assume "oldMap (recordAdd key ex dp cs) k = None"
      "has_key (Adds (recordAdd key ex dp cs)) k"
    then show "Lookup ms0 k = None"
      unfolding s using d(5) [of k] t by (auto split: if_splits)
  next
    fix k assume "oldMap (recordAdd key ex dp cs) k = None"
      "\<not> has_key (Adds (recordAdd key ex dp cs)) k"
    then show "Lookup ms k = Lookup ms0 k"
      unfolding s using d(6) [of k] by (auto split: if_splits)
  qed (use d s in auto)
qed

lemma revertible_recordAdd_new:
  assumes r: "revertible ms0 (ms, cs)" and n: "Lookup ms key = None"
  shows "revertible ms0 (insert_ms key e ms, recordAdd key False False cs)"
proof -
  note d = revertibleD [OF r]
  note s = recordAdd_simps(1,2) [of key False False cs] recordAdd_simps(3,4) [OF d(1), of key False False]
  show ?thesis
  proof (rule revertibleI)
    fix k assume "oldMap (recordAdd key False False cs) k = None"
      "has_key (Adds (recordAdd key False False cs)) k"
    then show "Lookup ms0 k = None"
      unfolding s using d(5) [of k] d(6) [of k] n by (cases "has_key (Adds cs) k") auto
  next
    fix k assume "oldMap (recordAdd key False False cs) k = None"
      "\<not> has_key (Adds (recordAdd key False False cs)) k"
    then show "Lookup (insert_ms key e ms) k = Lookup ms0 k"
      unfolding s using d(6) [of k] by (auto simp: Lookup_insert_ms)
  qed (use d s in auto)
qed

lemma revertible_recordDelete:
  assumes r: "revertible ms0 (ms, cs)"
    and t: "oldMap cs key \<noteq> None \<or> has_key (Adds cs) key"
  shows "revertible ms0 (delete_ms key ms, recordDelete key cs)"
proof -
  note d = revertibleD [OF r]
  note s = recordDelete_simps(1,2,4) [of key cs] recordDelete_simps(3) [OF d(1), of key]
  show ?thesis
  proof (rule revertibleI)
    fix k assume "oldMap (recordDelete key cs) k = None"
      "has_key (Adds (recordDelete key cs)) k"
    then show "Lookup ms0 k = None"
      unfolding s using d(5) [of k] by (auto split: if_splits)
  next
    fix k assume a: "oldMap (recordDelete key cs) k = None"
      "\<not> has_key (Adds (recordDelete key cs)) k"
    show "Lookup (delete_ms key ms) k = Lookup ms0 k"
    proof (cases "k = key")
      case True
      with a t have "has_key (Adds cs) key" unfolding s by auto
      with a True d(5) [of key] show ?thesis unfolding s by (simp add: Lookup_delete)
    next
      case False
      with a have "\<not> has_key (Adds cs) k" unfolding s by (auto split: if_splits)
      with a False d(6) [of k] show ?thesis unfolding s by (simp add: Lookup_delete)
    qed
  qed (use d s in auto)
qed

lemma revertible_deleteKey:
  assumes r: "revertible ms0 (ms, cs)"
  shows "revertible ms0 (deleteKeyWithChanges key owner cs ms)"
proof (cases "Lookup ms key")
  case None
  then show ?thesis using r by (simp add: deleteKeyWithChanges_def)
next
  case (Some entry)
  define cs1 where "cs1 = snd (insertOldIfNotExists key entry cs)"
  define oldAdded where "oldAdded = fst (insertOldIfNotExists key entry cs)"
  have io: "insertOldIfNotExists key entry cs = (oldAdded, cs1)"
    by (simp add: cs1_def oldAdded_def)
  note d = revertibleD [OF r]
  have r1: "revertible ms0 (ms, cs1)"
    unfolding cs1_def using r Some by (rule revertible_insertOld)
  have t1: "oldMap cs1 key \<noteq> None \<or> has_key (Adds cs1) key"
    unfolding cs1_def using insertOld_tracked [OF d(2), of key entry] by simp
  have del: "revertible ms0 (delete_ms key ms, recordDelete key cs1)"
    using r1 t1 by (rule revertible_recordDelete)
  have upd: "revertible ms0 (updateExisting key e' ms, cs1)" for e'
    using r1 t1 by (rule revertible_change_tracked) (simp add: Lookup_updateExisting)
  have undo: "revertible ms0 (ms, cs1\<lparr> old := map_option (AList.delete key) (old cs1) \<rparr>)"
    if "oldAdded"
  proof -
    from that have n: "oldMap cs key = None" "\<not> has_key (Adds cs) key"
      unfolding oldAdded_def insertOld_snd(4) [OF d(2)] by auto
    note d1 = revertibleD [OF r1]
    from d1(2) obtain om1 where om1: "old cs1 = Some om1" by auto
    have om: "oldMap cs1 = (oldMap cs)(key \<mapsto> entry)"
      unfolding cs1_def insertOld_snd(1) [OF d(2)] using n by simp
    have e: "oldMap (cs1\<lparr> old := map_option (AList.delete key) (old cs1) \<rparr>) = oldMap cs"
      using om n(1) om1
      by (auto simp: oldMap_def range_old_def AList.delete_conv' fun_eq_iff)
    have dd: "distinct (map fst (range_old (old (cs1\<lparr> old := map_option (AList.delete key) (old cs1) \<rparr>))))"
      using d1(3) om1 by (simp add: range_old_def AList.distinct_delete)
    show ?thesis
      using r
    proof (rule revertible_cong)
      show "Adds (cs1\<lparr> old := map_option (AList.delete key) (old cs1) \<rparr>) = Adds cs"
        by (simp add: cs1_def)
      show "old (cs1\<lparr> old := map_option (AList.delete key) (old cs1) \<rparr>) \<noteq> None"
        using om1 by simp
    qed (rule dd, rule e)
  qed
  show ?thesis
    using Some io del upd undo r1
    by (simp add: deleteKeyWithChanges_def Let_def)
qed

lemma revertible_addKey:
  assumes r: "revertible ms0 (ms, cs)"
    and pre: "\<not> (\<exists>v. Lookup ms key = Some v \<and> \<not> IsDeny (MapStateEntry v) \<and> IsDeny (MapStateEntry e))"
  shows "revertible ms0 (snd (addKeyWithChanges key e cs ms))"
proof (cases "Lookup ms key")
  case None
  then show ?thesis using revertible_recordAdd_new [OF r None]
    by (simp add: addKeyWithChanges_def)
next
  case (Some oe)
  note d = revertibleD [OF r]
  define cs1 where "cs1 = snd (insertOldIfNotExists key oe cs)"
  have r1: "revertible ms0 (ms, cs1)"
    unfolding cs1_def using r Some by (rule revertible_insertOld)
  have t1: "oldMap cs1 key \<noteq> None \<or> has_key (Adds cs1) key"
    unfolding cs1_def using insertOld_tracked [OF d(2), of key oe] by simp
  have "revertible ms0 (updateExisting key e' ms, cs1)" for e'
    using r1 t1 by (rule revertible_change_tracked) (simp add: Lookup_updateExisting)
  then have m: "revertible ms0 (updateExisting key e' ms, recordAdd key ex dp cs1)" for e' ex dp
    using t1 by (rule revertible_recordAdd_tracked)
  show ?thesis
    using Some pre r m
    by (auto simp: addKeyWithChanges_def Let_def cs1_def)
qed

lemma revertible_override:
  assumes r: "revertible ms0 (ms, cs)" and l: "Lookup ms k = Some v"
  shows "revertible ms0 (overrideAuthType newEntry k v cs ms)"
proof -
  note d = revertibleD [OF r]
  define cs1 where "cs1 = snd (insertOldIfNotExists k v cs)"
  have r1: "revertible ms0 (ms, cs1)"
    unfolding cs1_def using r l by (rule revertible_insertOld)
  have t1: "oldMap cs1 k \<noteq> None \<or> has_key (Adds cs1) k"
    unfolding cs1_def using insertOld_tracked [OF d(2), of k v] by simp
  have "revertible ms0 (updateExisting k e' ms, cs1)" for e'
    using r1 t1 by (rule revertible_change_tracked) (simp add: Lookup_updateExisting)
  then show ?thesis by (simp add: overrideAuthType_eq cs1_def)
qed

lemma revertible_deleteCovered:
  "revertible ms0 (ms, cs) \<Longrightarrow> revertible ms0 (deleteCovered ks newKey (ms, cs))"
proof (induction ks arbitrary: ms cs)
  case Nil then show ?case by simp
next
  case (Cons x ks)
  show ?case
  proof (cases "Lookup ms x")
    case None then show ?thesis using Cons by simp
  next
    case (Some v)
    obtain ms1 cs1 where d: "deleteKeyWithChanges x None cs ms = (ms1, cs1)"
      by (cases "deleteKeyWithChanges x None cs ms")
    have "revertible ms0 (ms1, cs1)"
      using revertible_deleteKey [OF Cons.prems, of x None] d by simp
    then show ?thesis using Some d Cons by simp
  qed
qed

lemma revertible_propagate:
  "revertible ms0 (ms, cs) \<Longrightarrow> revertible ms0 (propagateAuthType ks newEntry (ms, cs))"
proof (induction ks arbitrary: ms cs)
  case Nil then show ?case by simp
next
  case (Cons x ks)
  show ?case
  proof (cases "Lookup ms x")
    case None then show ?thesis using Cons by simp
  next
    case (Some v)
    obtain ms1 cs1 where d: "overrideAuthType newEntry x v cs ms = (ms1, cs1)"
      by (cases "overrideAuthType newEntry x v cs ms")
    have "revertible ms0 (ms1, cs1)"
      using revertible_override [OF Cons.prems Some, of newEntry] d by simp
    then show ?thesis using Some d Cons by simp
  qed
qed

lemma coveringAuthType_no_panic:
  "\<forall>(k, v) \<in> set ys. \<not> IsDeny (MapStateEntry v) \<Longrightarrow> coveringAuthType ys \<noteq> Inl e"
  by (induction ys rule: coveringAuthType.induct) auto

lemma Covering_subset_Broader:
  "k \<in> set (CoveringKeysWithSameID ms key) \<Longrightarrow> k \<in> set (BroaderOrEqualKeys ms key)"
  unfolding in_CoveringKeysWithSameID in_BroaderOrEqualKeys by auto

lemma covering_no_panic:
  assumes "\<not> coveredByDeny ms newKey newEntry" and "\<not> IsDeny (MapStateEntry newEntry)"
  shows "coveringAuthType (forKey_yield ms (CoveringKeysWithSameID ms newKey)) \<noteq> Inl e"
proof (rule coveringAuthType_no_panic, clarify)
  fix k v assume kv: "(k, v) \<in> set (forKey_yield ms (CoveringKeysWithSameID ms newKey))"
    and dn: "IsDeny (MapStateEntry v)"
  from kv have "k \<in> set (BroaderOrEqualKeys ms newKey)" "Lookup ms k = Some v"
    by (auto simp: in_forKey_yield dest: Covering_subset_Broader)
  with dn assms(2) have "coveredByDeny ms newKey newEntry"
    unfolding coveredByDeny_iff by blast
  with assms(1) show False by simp
qed

lemma Inv_addKey:
  assumes "Inv ms0 (ms, cs)"
    and "\<not> (\<exists>v. Lookup ms key = Some v \<and> \<not> IsDeny (MapStateEntry v) \<and> IsDeny (MapStateEntry e))"
  shows "Inv ms0 (snd (addKeyWithChanges key e cs ms))"
  using assms unfolding Inv_def by (simp add: I1_addKey revertible_addKey)

lemma Inv_insert:
  assumes inv: "Inv ms0 (ms, cs)"
  shows "\<exists>st'. insertWithChanges key e features cs ms = Inr st' \<and> Inv ms0 st'"
proof (cases "coveredByDeny ms key e")
  case True
  then show ?thesis using inv
    by (simp add: insertWithChanges_def denyPreferredInsertWithChanges_def)
next
  case nc: False
  from inv have i: "I1 ms" and r: "revertible ms0 (ms, cs)" by (simp_all add: Inv_def)
  show ?thesis
  proof (cases "IsDeny (MapStateEntry e)")
    case True
    obtain ms1 cs1 where dc: "deleteCovered (NarrowerOrEqualKeys ms key) key (ms, cs) = (ms1, cs1)"
      by (cases "deleteCovered (NarrowerOrEqualKeys ms key) key (ms, cs)")
    have inv1: "Inv ms0 (ms1, cs1)"
      using I1_deleteCovered [OF i, of "NarrowerOrEqualKeys ms key" key cs]
        revertible_deleteCovered [OF r, of "NarrowerOrEqualKeys ms key" key] dc
      by (simp add: Inv_def)
    have l1: "Lookup ms1 key =
      (if Lookup ms key \<noteq> None \<and>
          \<not> (\<exists>v. Lookup ms key = Some v \<and> IsDeny (MapStateEntry v))
       then None else Lookup ms key)"
      using Lookup_deleteCovered [of "NarrowerOrEqualKeys ms key" key ms cs key] dc
      by (simp add: in_Narrower_shadows [OF i])
    have pre: "\<not> (\<exists>v. Lookup ms1 key = Some v \<and> \<not> IsDeny (MapStateEntry v) \<and> IsDeny (MapStateEntry e))"
      unfolding l1 by (auto split: if_splits)
    from Inv_addKey [OF inv1 pre] nc True dc show ?thesis
      by (simp add: insertWithChanges_def denyPreferredInsertWithChanges_def)
  next
    case allow: False
    have pre: "\<not> (\<exists>v. Lookup ms' key = Some v \<and> \<not> IsDeny (MapStateEntry v) \<and> IsDeny (MapStateEntry e'))"
      if "\<not> IsDeny (MapStateEntry e')" for ms' e'
      using that by simp
    show ?thesis
    proof (cases "contains features authRules")
      case False
      from Inv_addKey [OF inv pre [OF allow]] nc allow False show ?thesis
        by (simp add: insertWithChanges_def denyPreferredInsertWithChanges_def)
    next
      case auth: True
      show ?thesis
      proof (cases "HasAuthType (MapStateEntry e) = DefaultAuthType")
        case True
        have np: "coveringAuthType (forKey_yield ms (CoveringKeysWithSameID ms key)) \<noteq> Inl x" for x
          using nc allow by (rule covering_no_panic)
        show ?thesis
        proof (cases "coveringAuthType (forKey_yield ms (CoveringKeysWithSameID ms key))")
          case (Inl x) with np [of x] show ?thesis by simp
        next
          case (Inr a)
          show ?thesis
          proof (cases a)
            case None
            from Inv_addKey [OF inv pre [OF allow]] nc allow auth True Inr None show ?thesis
              by (simp add: insertWithChanges_def denyPreferredInsertWithChanges_def
                    authPreferredInsert_def)
          next
            case (Some t)
            let ?e = "e\<lparr> MapStateEntry := (MapStateEntry e)\<lparr> AuthType := t \<rparr> \<rparr>"
            have "\<not> IsDeny (MapStateEntry ?e)" using allow by simp
            from Inv_addKey [OF inv pre [OF this]] nc allow auth True Inr Some show ?thesis
              by (simp add: insertWithChanges_def denyPreferredInsertWithChanges_def
                    authPreferredInsert_def)
          qed
        qed
      next
        case False
        obtain ms1 cs1 where p: "propagateAuthType (SubsetKeysWithSameID ms key) e (ms, cs) = (ms1, cs1)"
          by (cases "propagateAuthType (SubsetKeysWithSameID ms key) e (ms, cs)")
        have inv1: "Inv ms0 (ms1, cs1)"
          using I1_propagate [OF i, of "SubsetKeysWithSameID ms key" e cs]
            revertible_propagate [OF r, of "SubsetKeysWithSameID ms key" e] p
          by (simp add: Inv_def)
        from Inv_addKey [OF inv1 pre [OF allow]] nc allow auth False p show ?thesis
          by (simp add: insertWithChanges_def denyPreferredInsertWithChanges_def
                authPreferredInsert_def)
      qed
    qed
  qed
qed

lemma Inv_applyChange:
  assumes "Inv ms0 st"
  shows "\<exists>st'. applyChange c st = Inr st' \<and> Inv ms0 st'"
proof (cases st)
  case (Pair ms cs)
  show ?thesis
  proof (cases c)
    case (Insert key e features)
    with Pair assms Inv_insert [of ms0 ms cs key e features] show ?thesis by simp
  next
    case (DeleteKey key owner)
    with Pair assms show ?thesis
      by (simp add: Inv_def I1_deleteKey revertible_deleteKey)
  qed
qed

lemma Inv_applyChanges:
  assumes "Inv ms0 st"
  shows "\<exists>st'. applyChanges cs st = Inr st' \<and> Inv ms0 st'"
  using assms
proof (induction cs arbitrary: st)
  case Nil then show ?case by simp
next
  case (Cons c cs)
  from Inv_applyChange [OF Cons.prems, of c] obtain st1
    where s: "applyChange c st = Inr st1" "Inv ms0 st1" by blast
  from Cons.IH [OF s(2)] s(1) show ?case by simp
qed

lemma Lookup_fold_delete:
  "Lookup (fold delete_ms ks ms) k = (if k \<in> set ks then None else Lookup ms k)"
  by (induction ks arbitrary: ms) (auto simp: Lookup_delete)

lemma Lookup_fold_insert:
  "distinct (map fst kvs) \<Longrightarrow>
   Lookup (fold (\<lambda>(k, v). insert_ms k v) kvs ms) k =
     (case map_of kvs k of Some v \<Rightarrow> Some v | None \<Rightarrow> Lookup ms k)"
proof (induction kvs arbitrary: ms)
  case Nil then show ?case by simp
next
  case (Cons kv kvs)
  obtain k0 v0 where kv: "kv = (k0, v0)" by (cases kv)
  from Cons.prems kv have n: "map_of kvs k0 = None" and d: "distinct (map fst kvs)"
    by (auto simp: map_of_eq_None_iff)
  show ?case using Cons.IH [OF d, of "insert_ms k0 v0 ms"] n kv
    by (auto simp: Lookup_insert_ms split: option.splits)
qed

lemma I1_fold_delete: "I1 ms \<Longrightarrow> I1 (fold delete_ms ks ms)"
  by (induction ks arbitrary: ms) (auto simp: I1_delete)

lemma I1_fold_insert: "I1 ms \<Longrightarrow> I1 (fold (\<lambda>(k, v). insert_ms k v) kvs ms)"
  by (induction kvs arbitrary: ms) (auto simp: I1_insert_ms)

lemma revertible_revert:
  assumes "revertible ms0 (ms, cs)"
  shows "Lookup (revertChanges cs ms) k = Lookup ms0 k"
proof -
  note d = revertibleD [OF assms]
  have h: "has_key (Adds cs) k = (k \<in> set (range_keys (Adds cs)))"
    by (simp add: has_key_def range_keys_def split: option.splits)
  have "Lookup (revertChanges cs ms) k =
      (case oldMap cs k of Some v \<Rightarrow> Some v
       | None \<Rightarrow> if has_key (Adds cs) k then None else Lookup ms k)"
    unfolding revertChanges_def Lookup_fold_insert [OF d(3)] Lookup_fold_delete h oldMap_def
    by simp
  also have "\<dots> = Lookup ms0 k"
    using d(4) [of k] d(5) [of k] d(6) [of k] by (auto split: option.splits)
  finally show ?thesis .
qed

lemma revertible_init: "revertible ms (ms, newChangeState)"
  by (simp add: revertible_def newChangeState_def oldMap_def range_old_def has_key_def)

text \<open>
  C3. For every map state with consistent trie and every batch of \<open>insertWithChanges\<close> and
  \<open>deleteKeyWithChanges\<close> recorded into one fresh \<open>ChangeState\<close>, the batch runs without
  panic and \<open>revertChanges\<close> afterwards restores the map: every key has the entry it had
  before the batch, or is absent as before, and the trie is consistent again.
\<close>

theorem revert_restores:
  assumes "trie_consistent ms"
  shows "\<exists>ms' cs'. applyChanges batch (ms, newChangeState) = Inr (ms', cs')
           \<and> (\<forall>k. Lookup (revertChanges cs' ms') k = Lookup ms k)
           \<and> trie_consistent (revertChanges cs' ms')"
proof -
  from assms have "Inv ms (ms, newChangeState)"
    by (simp add: Inv_def trie_consistent_iff revertible_init)
  from Inv_applyChanges [OF this, of batch] obtain ms' cs'
    where a: "applyChanges batch (ms, newChangeState) = Inr (ms', cs')" and i: "Inv ms (ms', cs')"
    by (metis surj_pair)
  from i have "I1 (revertChanges cs' ms')"
    by (simp add: Inv_def revertChanges_def I1_fold_insert I1_fold_delete)
  with a i show ?thesis
    by (auto simp: Inv_def revertible_revert trie_consistent_iff)
qed

section \<open>The walk over narrower keys\<close>

lemma HasAuthType_neq [simp]:
  "(h \<noteq> ExplicitAuthType) = (h = DefaultAuthType)" "(h \<noteq> DefaultAuthType) = (h = ExplicitAuthType)"
  by (cases h; simp)+

lemma forKey_yield_Cons:
  "forKey_yield ms (k # ks) =
     (case Lookup ms k of None \<Rightarrow> forKey_yield ms ks | Some v \<Rightarrow> (k, v) # forKey_yield ms ks)"
  by (simp add: forKey_yield_def map_filter_simps split: option.splits)

lemma forKey_yield_Nil [simp]: "forKey_yield ms [] = []"
  by (simp add: forKey_yield_def map_filter_simps)

lemma forKey_yield_cong:
  "(\<And>k. k \<in> set ks \<Longrightarrow> Lookup ms1 k = Lookup ms k) \<Longrightarrow> forKey_yield ms1 ks = forKey_yield ms ks"
proof (induction ks)
  case Nil then show ?case by simp
next
  case (Cons a ks)
  have "forKey_yield ms1 ks = forKey_yield ms ks" by (rule Cons.IH) (simp add: Cons.prems)
  moreover have "Lookup ms1 a = Lookup ms a" by (rule Cons.prems) simp
  ultimately show ?case by (simp add: forKey_yield_Cons split: option.splits)
qed

lemma fst_forKey_yield: "fst ` set (forKey_yield ms ks) \<subseteq> set ks"
  by (auto simp: in_forKey_yield)

lemma Lookup_override:
  "Lookup (fst (overrideAuthType newEntry k v cs ms)) =
     (Lookup ms)(k \<mapsto> setAuthType (AuthType (MapStateEntry newEntry)) v)"
  by (simp add: overrideAuthType_eq Lookup_updateExisting setAuthType_def)

lemma Lookup_propagate:
  assumes "distinct ks"
  shows "(\<forall>(k, v) \<in> set (takeWhile defaultAllow (forKey_yield ms ks)).
            Lookup (fst (propagateAuthType ks newEntry (ms, cs))) k
              = Some (setAuthType (AuthType (MapStateEntry newEntry)) v))
       \<and> (\<forall>k. k \<notin> fst ` set (takeWhile defaultAllow (forKey_yield ms ks)) \<longrightarrow>
            Lookup (fst (propagateAuthType ks newEntry (ms, cs))) k = Lookup ms k)"
  using assms
proof (induction ks arbitrary: ms cs)
  case Nil
  then show ?case by simp
next
  case (Cons x ks)
  then have dx: "x \<notin> set ks" and d: "distinct ks" by simp_all
  show ?case
  proof (cases "Lookup ms x")
    case None
    then show ?thesis using Cons.IH [OF d, of ms cs] by (simp add: forKey_yield_Cons)
  next
    case (Some v)
    show ?thesis
    proof (cases "defaultAllow (x, v)")
      case False
      then show ?thesis using Some
        by (auto simp: forKey_yield_Cons defaultAllow_def)
    next
      case True
      obtain ms1 cs1 where o: "overrideAuthType newEntry x v cs ms = (ms1, cs1)"
        by (cases "overrideAuthType newEntry x v cs ms")
      have l1: "Lookup ms1 = (Lookup ms)(x \<mapsto> setAuthType (AuthType (MapStateEntry newEntry)) v)"
        using Lookup_override [of newEntry x v cs ms] o by simp
      have y: "forKey_yield ms1 ks = forKey_yield ms ks"
        by (rule forKey_yield_cong) (use l1 dx in auto)
      let ?P1 = "takeWhile defaultAllow (forKey_yield ms ks)"
      have P: "takeWhile defaultAllow (forKey_yield ms (x # ks)) = (x, v) # ?P1"
        using Some True by (simp add: forKey_yield_Cons)
      have r: "propagateAuthType (x # ks) newEntry (ms, cs) = propagateAuthType ks newEntry (ms1, cs1)"
        using Some True o by (simp add: defaultAllow_def)
      note ih = Cons.IH [OF d, of ms1 cs1, unfolded y]
      have xn: "x \<notin> fst ` set ?P1"
        using dx fst_forKey_yield [of ms ks] set_takeWhileD [of _ defaultAllow "forKey_yield ms ks"]
        by (auto simp: image_iff)
      have a: "Lookup (fst (propagateAuthType ks newEntry (ms1, cs1))) x
                 = Some (setAuthType (AuthType (MapStateEntry newEntry)) v)"
        using ih xn l1 by simp
      have b: "Lookup (fst (propagateAuthType ks newEntry (ms1, cs1))) k = Lookup ms k"
        if "k \<noteq> x" "k \<notin> fst ` set ?P1" for k
        using ih that l1 by simp
      show ?thesis unfolding P r using ih a b by auto
    qed
  qed
qed

lemma distinct_leaf_keys:
  assumes "distinct (map fst L)"
  shows "distinct (concat (map (\<lambda>(p, ids). if c p then forID (WithIdentity p i) ids else []) L))"
  using assms
proof (induction L)
  case Nil then show ?case by simp
next
  case (Cons a L)
  obtain p ids where a: "a = (p, ids)" by (cases a)
  have "LPMKey k \<in> fst ` set L"
    if "k \<in> set (concat (map (\<lambda>(p, ids). if c p then forID (WithIdentity p i) ids else []) L))" for k
    using that by (force simp: in_forID WI image_iff split: if_splits)
  with Cons a show ?case
    by (auto simp: forID_def WI split: if_splits)
qed

lemma distinct_fst_sort_key: "distinct (map fst (sort_key g xs)) = distinct (map fst xs)"
  by (simp add: distinct_map)

lemma distinct_SubsetKeys:
  assumes "I1 ms"
  shows "distinct (SubsetKeysWithSameID ms key)"
proof -
  from assms have "distinct (map fst (trie ms))" by (simp add: I1_def)
  then have "distinct (map fst (DescendantShortestPrefixFirstIterator (trie ms) (LPMKey key)))"
    unfolding DescendantShortestPrefixFirstIterator_def DescendantIterator_def
      distinct_fst_sort_key
    by (rule distinct_map_filter)
  then show ?thesis
    unfolding SubsetKeysWithSameID_def
    using distinct_leaf_keys [where c = "\<lambda>p. \<not> PortProtoIsEqual p (LPMKey key)" and i = "Identity key"]
    by simp
qed

lemma sorted_leaf_keys:
  assumes "sorted (map (\<lambda>(p, ids). PrefixLength p) L)"
  shows "sorted (map (\<lambda>k. PrefixLength (LPMKey k))
           (concat (map (\<lambda>(p, ids). if c p then forID (WithIdentity p i) ids else []) L)))"
  using assms
proof (induction L)
  case Nil then show ?case by simp
next
  case (Cons a L)
  obtain p ids where a: "a = (p, ids)" by (cases a)
  have m: "\<exists>q ids'. (q, ids') \<in> set L \<and> LPMKey k = q"
    if "k \<in> set (concat (map (\<lambda>(p, ids). if c p then forID (WithIdentity p i) ids else []) L))" for k
    using that by (fastforce simp: in_forID WI split: if_splits)
  from Cons.prems a have le: "\<And>q ids'. (q, ids') \<in> set L \<Longrightarrow> PrefixLength p \<le> PrefixLength q"
    by auto
  from Cons a have s: "sorted (map (\<lambda>k. PrefixLength (LPMKey k))
           (concat (map (\<lambda>(p, ids). if c p then forID (WithIdentity p i) ids else []) L)))"
    by simp
  show ?case using s a le m
    by (auto simp: forID_def sorted_append split: if_splits) 
qed

lemma sorted_SubsetKeys:
  "sorted (map (\<lambda>k. PrefixLength (LPMKey k)) (SubsetKeysWithSameID ms key))"
  unfolding SubsetKeysWithSameID_def DescendantShortestPrefixFirstIterator_def
  by (rule sorted_leaf_keys) (rule sorted_sort_key)

lemma sorted_forKey_yield:
  assumes "sorted (map (\<lambda>k. PrefixLength (LPMKey k)) ks)"
  shows "sorted (map (\<lambda>(k, v). PrefixLength (LPMKey k)) (forKey_yield ms ks))"
  using assms
proof (induction ks)
  case Nil then show ?case by simp
next
  case (Cons x ks)
  then show ?case
    by (auto simp: forKey_yield_Cons in_forKey_yield split: option.splits)
qed

lemmas iter_defs = forID_def forIDs_def forKey_yield_def map_filter_simps
  BroaderOrEqualKeys_def NarrowerOrEqualKeys_def CoveringKeysWithSameID_def SubsetKeysWithSameID_def
  AncestorIterator_def DescendantIterator_def AncestorLongestPrefixFirstIterator_def
  DescendantShortestPrefixFirstIterator_def IsPrefixOf_def PortProtoIsEqual_def PrefixLength_def
lemmas engine_defs = insertWithChanges_def denyPreferredInsertWithChanges_def coveredByDeny_def
  authPreferredInsert_def overrideAuthType_def contains_def
lemmas entry_defs = merge_def deepEqual_def Equal_def IsRedirectEntry_def
lemmas state_defs = state_A_def state_D_def explicitAuthEntry_def
lemmas inv_defs = trie_consistent_def no_shadowed_allow_def shadows_def


lemmas all_defs = state_defs ex_defs ms_defs engine_defs iter_defs cs_defs entry_defs inv_defs

section \<open>Propagation of the auth type\<close>

text \<open>
  C7, amended. With the auth feature active, inserting an allow entry with an explicit auth
  type at a key not covered by a deny walks the entries with the same identity and a
  strictly narrower port/proto (a different port/proto below the key), shortest prefix
  first, and stops at the first one that is deny or has an explicit auth type. The
  entries before that point get the auth type of the new entry and are otherwise as they
  were, so their \<open>HasAuthType\<close> is still default; every other key but the inserted one
  keeps its entry. The witness is scenario S2.
\<close>

theorem auth_propagation:
  assumes "trie_consistent ms"
    and "\<not> IsDeny (MapStateEntry newEntry)"
    and "HasAuthType (MapStateEntry newEntry) = ExplicitAuthType"
    and "contains features authRules"
    and "\<not> coveredByDeny ms key newEntry"
  shows "\<exists>ms' cs'. insertWithChanges key newEntry features cs ms = Inr (ms', cs')
     \<and> (\<forall>(k, v) \<in> set (takeWhile defaultAllow (forKey_yield ms (SubsetKeysWithSameID ms key))).
           Lookup ms' k = Some (setAuthType (AuthType (MapStateEntry newEntry)) v))
     \<and> (\<forall>k. k \<notin> fst ` set (takeWhile defaultAllow (forKey_yield ms (SubsetKeysWithSameID ms key)))
              \<and> k \<noteq> key \<longrightarrow> Lookup ms' k = Lookup ms k)
     \<and> sorted (map (\<lambda>(k, v). PrefixLength (LPMKey k)) (forKey_yield ms (SubsetKeysWithSameID ms key)))
     \<and> (\<forall>k v. (k, v) \<in> set (forKey_yield ms (SubsetKeysWithSameID ms key)) \<longleftrightarrow>
           Lookup ms k = Some v \<and> IsPrefixOf (LPMKey key) (LPMKey k) \<and>
           \<not> PortProtoIsEqual (LPMKey k) (LPMKey key) \<and> Identity k = Identity key)"
proof -
  from assms(1) have i: "I1 ms" by (simp add: trie_consistent_iff)
  let ?ks = "SubsetKeysWithSameID ms key"
  let ?P = "takeWhile defaultAllow (forKey_yield ms ?ks)"
  obtain ms1 cs1 where p: "propagateAuthType ?ks newEntry (ms, cs) = (ms1, cs1)"
    by (cases "propagateAuthType ?ks newEntry (ms, cs)")
  obtain b ms' cs' where ak: "addKeyWithChanges key newEntry cs1 ms1 = (b, ms', cs')"
    by (cases "addKeyWithChanges key newEntry cs1 ms1")
  have r: "insertWithChanges key newEntry features cs ms = Inr (ms', cs')"
    using assms(2-5) p ak
    by (simp add: insertWithChanges_def denyPreferredInsertWithChanges_def authPreferredInsert_def)
  note lp = Lookup_propagate [OF distinct_SubsetKeys [OF i], of ms key newEntry cs, unfolded p fst_conv]
  have nk: "key \<notin> set ?ks"
    by (simp add: in_SubsetKeysWithSameID PortProtoIsEqual_def)
  have kP: "k \<in> set ?ks" if "(k, v) \<in> set ?P" for k v
    using set_takeWhileD [OF that] by (simp add: in_forKey_yield)
  have l2: "Lookup ms' k = Lookup ms1 k" if "k \<noteq> key" for k
    using Lookup_addKey_other [OF that, where e = newEntry and cs = cs1 and ms = ms1] ak by simp
  have c1: "\<forall>(k, v) \<in> set ?P. Lookup ms' k = Some (setAuthType (AuthType (MapStateEntry newEntry)) v)"
  proof clarify
    fix k v assume kv: "(k, v) \<in> set ?P"
    with kP nk have "k \<noteq> key" by auto
    from l2 [OF this] lp kv
    show "Lookup ms' k = Some (setAuthType (AuthType (MapStateEntry newEntry)) v)" by auto
  qed
  have c2: "\<forall>k. k \<notin> fst ` set ?P \<and> k \<noteq> key \<longrightarrow> Lookup ms' k = Lookup ms k"
    using l2 lp by auto
  have c3: "sorted (map (\<lambda>(k, v). PrefixLength (LPMKey k)) (forKey_yield ms ?ks))"
    by (rule sorted_forKey_yield) (rule sorted_SubsetKeys)
  have c4: "\<forall>k v. (k, v) \<in> set (forKey_yield ms ?ks) \<longleftrightarrow>
           Lookup ms k = Some v \<and> IsPrefixOf (LPMKey key) (LPMKey k) \<and>
           \<not> PortProtoIsEqual (LPMKey k) (LPMKey key) \<and> Identity k = Identity key"
    unfolding in_forKey_yield in_SubsetKeysWithSameID I1_in_trie [OF i] by auto
  from r c1 c2 c3 c4 show ?thesis by blast
qed

theorem auth_propagation_witness:
  "trie_consistent state_A
 \<and> \<not> IsDeny (MapStateEntry (explicitAuthEntry (Some 2) 1))
 \<and> HasAuthType (MapStateEntry (explicitAuthEntry (Some 2) 1)) = ExplicitAuthType
 \<and> contains {authRules} authRules
 \<and> \<not> coveredByDeny state_A (WithIdentity tcpAny 10) (explicitAuthEntry (Some 2) 1)
 \<and> insertWithChanges (WithIdentity tcp80 10) (allowEntry (Some 1)) {authRules} newChangeState newMapState
     = Inr (state_A, newChangeState\<lparr> Adds := Some [WithIdentity tcp80 10] \<rparr>)
 \<and> (\<exists>ms' cs'. insertWithChanges (WithIdentity tcpAny 10) (explicitAuthEntry (Some 2) 1) {authRules}
                  (newChangeState\<lparr> Adds := Some [WithIdentity tcp80 10] \<rparr>) state_A = Inr (ms', cs')
       \<and> map_option (\<lambda>v. AuthType (MapStateEntry v)) (Lookup ms' (WithIdentity tcp80 10)) = Some 1
       \<and> map_option (\<lambda>v. HasAuthType (MapStateEntry v)) (Lookup ms' (WithIdentity tcp80 10))
           = Some DefaultAuthType)"
proof -
  let ?e = "explicitAuthEntry (Some 2) 1"
  let ?k = "WithIdentity tcpAny 10"
  let ?cs = "newChangeState\<lparr> Adds := Some [WithIdentity tcp80 10] \<rparr>"
  have h1: "trie_consistent state_A" by (simp add: all_defs)
  have h2: "\<not> IsDeny (MapStateEntry ?e)" by (simp add: all_defs)
  have h3: "HasAuthType (MapStateEntry ?e) = ExplicitAuthType" by (simp add: all_defs)
  have h4: "contains {authRules} authRules" by (simp add: contains_def)
  have h5: "\<not> coveredByDeny state_A ?k ?e" by (simp add: all_defs)
  have s1: "insertWithChanges (WithIdentity tcp80 10) (allowEntry (Some 1)) {authRules} newChangeState newMapState
     = Inr (state_A, ?cs)"
    by (simp add: all_defs List.insert_def)
  have P: "takeWhile defaultAllow (forKey_yield state_A (SubsetKeysWithSameID state_A ?k))
      = [(WithIdentity tcp80 10, allowEntry (Some 1))]"
    by (simp add: all_defs defaultAllow_def)
  have a: "AuthType (MapStateEntry (setAuthType (AuthType (MapStateEntry ?e)) (allowEntry (Some 1)))) = 1"
    "HasAuthType (MapStateEntry (setAuthType (AuthType (MapStateEntry ?e)) (allowEntry (Some 1))))
       = DefaultAuthType"
    by (simp_all add: all_defs setAuthType_def)
  from auth_propagation [OF h1 h2 h3 h4 h5, of ?cs] obtain ms' cs'
    where r: "insertWithChanges ?k ?e {authRules} ?cs state_A = Inr (ms', cs')"
      and c: "\<forall>(k, v) \<in> set (takeWhile defaultAllow (forKey_yield state_A (SubsetKeysWithSameID state_A ?k))).
           Lookup ms' k = Some (setAuthType (AuthType (MapStateEntry ?e)) v)"
    by blast
  from c have "Lookup ms' (WithIdentity tcp80 10)
      = Some (setAuthType (AuthType (MapStateEntry ?e)) (allowEntry (Some 1)))"
    unfolding P by simp
  with a have "map_option (\<lambda>v. AuthType (MapStateEntry v)) (Lookup ms' (WithIdentity tcp80 10)) = Some 1"
    "map_option (\<lambda>v. HasAuthType (MapStateEntry v)) (Lookup ms' (WithIdentity tcp80 10)) = Some DefaultAuthType"
    by simp_all
  with r h1 h2 h3 h4 h5 s1 show ?thesis by blast
qed

text \<open>
  C7, as stated, fails for a covered entry at the same port/proto: an allow entry with
  default auth type at the key of the insertion is merged with the new entry, and its
  \<open>HasAuthType\<close> becomes explicit.
\<close>

theorem auth_same_key_becomes_explicit:
  "Lookup state_A (WithIdentity tcp80 10) = Some (allowEntry (Some 1))
 \<and> \<not> IsDeny (MapStateEntry (allowEntry (Some 1)))
 \<and> HasAuthType (MapStateEntry (allowEntry (Some 1))) = DefaultAuthType
 \<and> IsPrefixOf tcp80 tcp80
 \<and> (case insertWithChanges (WithIdentity tcp80 10) (explicitAuthEntry (Some 2) 1) {authRules}
            newChangeState state_A of
       Inl e \<Rightarrow> False
     | Inr (ms', cs') \<Rightarrow>
         map_option (\<lambda>v. HasAuthType (MapStateEntry v)) (Lookup ms' (WithIdentity tcp80 10))
           = Some ExplicitAuthType
       \<and> map_option (\<lambda>v. AuthType (MapStateEntry v)) (Lookup ms' (WithIdentity tcp80 10)) = Some 1)"
  by (simp add: all_defs)

section \<open>Preservation of the invariants by the engine\<close>

text \<open>
  The executable form of invariant I2 and its form with quantifiers agree when the keys
  of the entries are distinct.
\<close>

lemma no_shadowed_allow_iff:
  assumes "distinct (map fst (entries ms))"
  shows "no_shadowed_allow ms = I2 ms"
proof
  assume "no_shadowed_allow ms"
  then show "I2 ms" unfolding I2_def by (blast intro: no_shadowed_allowD)
next
  assume i: "I2 ms"
  have l: "Lookup ms k = Some v" if "(k, v) \<in> set (entries ms)" for k v
    using that assms by (simp add: Lookup_def)
  show "no_shadowed_allow ms"
    unfolding no_shadowed_allow_def list_all_iff
  proof clarify
    fix a va d vd
    assume "(a, va) \<in> set (entries ms)" "(d, vd) \<in> set (entries ms)"
      "\<not> IsDeny (MapStateEntry va)" "IsDeny (MapStateEntry vd)" "shadows d a"
    with i l show False unfolding I2_def by blast
  qed
qed

lemma sub_polarityI:
  assumes "\<And>k v'. Lookup ms' k = Some v' \<Longrightarrow>
      \<exists>v. Lookup ms k = Some v \<and> IsDeny (MapStateEntry v') = IsDeny (MapStateEntry v)"
  shows "sub_polarity ms' ms"
  using assms unfolding sub_polarity_def by blast

lemma sub_polarityD:
  assumes "sub_polarity ms' ms" and "Lookup ms' k = Some v'"
  shows "\<exists>v. Lookup ms k = Some v \<and> IsDeny (MapStateEntry v') = IsDeny (MapStateEntry v)"
  using assms unfolding sub_polarity_def by blast

lemma sub_polarity_refl [simp]: "sub_polarity ms ms"
  by (simp add: sub_polarity_def)

lemma sub_polarity_trans:
  assumes "sub_polarity ms2 ms1" and "sub_polarity ms1 ms"
  shows "sub_polarity ms2 ms"
proof (rule sub_polarityI)
  fix k v2 assume "Lookup ms2 k = Some v2"
  from sub_polarityD [OF assms(1) this] obtain v1
    where v1: "Lookup ms1 k = Some v1" "IsDeny (MapStateEntry v2) = IsDeny (MapStateEntry v1)" by blast
  from sub_polarityD [OF assms(2) v1(1)] v1(2)
  show "\<exists>v. Lookup ms k = Some v \<and> IsDeny (MapStateEntry v2) = IsDeny (MapStateEntry v)" by auto
qed

lemma I2_sub_polarity:
  assumes "I2 ms" and "sub_polarity ms' ms"
  shows "I2 ms'"
  unfolding I2_def
proof (intro allI impI, elim conjE)
  fix a va d vd
  assume h: "Lookup ms' a = Some va" "Lookup ms' d = Some vd" "IsDeny (MapStateEntry vd)" "shadows d a"
  from sub_polarityD [OF assms(2) h(1)] obtain wa
    where wa: "Lookup ms a = Some wa" "IsDeny (MapStateEntry va) = IsDeny (MapStateEntry wa)" by blast
  from sub_polarityD [OF assms(2) h(2)] obtain wd
    where wd: "Lookup ms d = Some wd" "IsDeny (MapStateEntry vd) = IsDeny (MapStateEntry wd)" by blast
  from assms(1) wa(1) wd h(3,4) have "IsDeny (MapStateEntry wa)" unfolding I2_def by blast
  with wa(2) show "IsDeny (MapStateEntry va)" by simp
qed

lemma sub_polarity_deleteKey: "sub_polarity (fst (deleteKeyWithChanges key owner cs ms)) ms"
proof (rule sub_polarityI)
  fix k v' assume a: "Lookup (fst (deleteKeyWithChanges key owner cs ms)) k = Some v'"
  show "\<exists>v. Lookup ms k = Some v \<and> IsDeny (MapStateEntry v') = IsDeny (MapStateEntry v)"
  proof (cases "Lookup ms key")
    case None
    with a show ?thesis by (simp add: deleteKeyWithChanges_def)
  next
    case (Some entry)
    show ?thesis
    proof (cases "k = key")
      case False
      with a Some show ?thesis
        by (simp add: deleteKeyWithChanges_def Let_def Lookup_delete Lookup_updateExisting
              split: prod.splits if_splits)
    next
      case True
      with a Some show ?thesis
        by (auto simp: deleteKeyWithChanges_def Let_def Lookup_delete Lookup_updateExisting
              split: prod.splits if_splits)
    qed
  qed
qed

lemma sub_polarity_override:
  assumes "Lookup ms k = Some v"
  shows "sub_polarity (fst (overrideAuthType newEntry k v cs ms)) ms"
proof (rule sub_polarityI)
  fix x v' assume a: "Lookup (fst (overrideAuthType newEntry k v cs ms)) x = Some v'"
  show "\<exists>w. Lookup ms x = Some w \<and> IsDeny (MapStateEntry v') = IsDeny (MapStateEntry w)"
  proof (cases "x = k")
    case True
    with a assms show ?thesis by (auto simp: Lookup_override setAuthType_def)
  next
    case False
    with a show ?thesis by (simp add: Lookup_override)
  qed
qed

text \<open>
  The two loops of the engine only delete keys or overwrite the auth type of allow
  entries, so they keep invariant I2. \<open>addKeyWithChanges\<close> keeps it for an allow entry at
  a key that no deny entry covers, and for a deny entry at a key that covers no other key.
\<close>

lemma sub_polarity_deleteCovered: "sub_polarity (fst (deleteCovered ks newKey (ms, cs))) ms"
proof (induction ks arbitrary: ms cs)
  case Nil then show ?case by simp
next
  case (Cons x ks)
  show ?case
  proof (cases "Lookup ms x")
    case None then show ?thesis using Cons by simp
  next
    case (Some v)
    obtain ms1 cs1 where d: "deleteKeyWithChanges x None cs ms = (ms1, cs1)"
      by (cases "deleteKeyWithChanges x None cs ms")
    have "sub_polarity ms1 ms" using sub_polarity_deleteKey [of x None cs ms] d by simp
    with Cons [of ms1 cs1] have "sub_polarity (fst (deleteCovered ks newKey (ms1, cs1))) ms"
      by (rule sub_polarity_trans)
    then show ?thesis using Some d Cons [of ms cs] by simp
  qed
qed

lemma sub_polarity_propagate: "sub_polarity (fst (propagateAuthType ks newEntry (ms, cs))) ms"
proof (induction ks arbitrary: ms cs)
  case Nil then show ?case by simp
next
  case (Cons x ks)
  show ?case
  proof (cases "Lookup ms x")
    case None then show ?thesis using Cons by simp
  next
    case (Some v)
    obtain ms1 cs1 where d: "overrideAuthType newEntry x v cs ms = (ms1, cs1)"
      by (cases "overrideAuthType newEntry x v cs ms")
    have "sub_polarity ms1 ms" using sub_polarity_override [OF Some, of newEntry cs] d by simp
    with Cons [of ms1 cs1] have "sub_polarity (fst (propagateAuthType ks newEntry (ms1, cs1))) ms"
      by (rule sub_polarity_trans)
    then show ?thesis using Some d by simp
  qed
qed

text \<open>adding an allow entry at a key that no deny entry shadows\<close>
lemma I2_addKey_allow:
  assumes i: "I2 ms" and a: "\<not> IsDeny (MapStateEntry e)"
    and n: "\<And>d vd. Lookup ms d = Some vd \<Longrightarrow> IsDeny (MapStateEntry vd) \<Longrightarrow> \<not> shadows d key"
  shows "I2 (fst (snd (addKeyWithChanges key e cs ms)))"
proof -
  let ?ms = "fst (snd (addKeyWithChanges key e cs ms))"
  have o: "Lookup ?ms k = Lookup ms k" if "k \<noteq> key" for k
    using that by (rule Lookup_addKey_other)
  have nd: "\<not> IsDeny (MapStateEntry v)" if "Lookup ?ms key = Some v" for v
    using that a n [of key, simplified]
    by (auto simp: Lookup_addKey split: option.splits if_splits)
  show ?thesis unfolding I2_def
  proof (intro allI impI, elim conjE)
    fix x vx d vd
    assume h: "Lookup ?ms x = Some vx" "Lookup ?ms d = Some vd" "IsDeny (MapStateEntry vd)" "shadows d x"
    from h(2,3) nd have dk: "d \<noteq> key" by auto
    with h(2) o have ld: "Lookup ms d = Some vd" by simp
    show "IsDeny (MapStateEntry vx)"
    proof (cases "x = key")
      case True
      with n [OF ld h(3)] h(4) show ?thesis by simp
    next
      case False
      with h(1) o have "Lookup ms x = Some vx" by simp
      with i ld h(3,4) show ?thesis unfolding I2_def by blast
    qed
  qed
qed

text \<open>adding a deny entry at a key after the keys it shadows are gone\<close>
lemma I2_addKey_deny:
  assumes i: "I2 ms" and dn: "IsDeny (MapStateEntry e)"
    and g: "\<And>a. Lookup ms a \<noteq> None \<Longrightarrow> shadows key a \<Longrightarrow> a = key"
  shows "I2 (fst (snd (addKeyWithChanges key e cs ms)))"
proof -
  let ?ms = "fst (snd (addKeyWithChanges key e cs ms))"
  have o: "Lookup ?ms k = Lookup ms k" if "k \<noteq> key" for k
    using that by (rule Lookup_addKey_other)
  from Lookup_addKey_deny [OF dn, of key cs ms] obtain vk
    where vk: "Lookup ?ms key = Some vk" "IsDeny (MapStateEntry vk)" by blast
  show ?thesis unfolding I2_def
  proof (intro allI impI, elim conjE)
    fix x vx d vd
    assume h: "Lookup ?ms x = Some vx" "Lookup ?ms d = Some vd" "IsDeny (MapStateEntry vd)" "shadows d x"
    show "IsDeny (MapStateEntry vx)"
    proof (cases "x = key")
      case True with h(1) vk show ?thesis by simp
    next
      case False
      with h(1) o have lx: "Lookup ms x = Some vx" by simp
      show ?thesis
      proof (cases "d = key")
        case True
        with g [of x] lx h(4) False show ?thesis by auto
      next
        case False
        with h(2) o have "Lookup ms d = Some vd" by simp
        with i lx h(3,4) show ?thesis unfolding I2_def by blast
      qed
    qed
  qed
qed

lemma I2_insert:
  assumes i1: "I1 ms" and i2: "I2 ms"
    and r: "insertWithChanges key e features cs ms = Inr (ms', cs')"
  shows "I2 ms'"
proof (cases "coveredByDeny ms key e")
  case True
  with r i2 show ?thesis
    by (simp add: insertWithChanges_def denyPreferredInsertWithChanges_def)
next
  case nc: False
  show ?thesis
  proof (cases "IsDeny (MapStateEntry e)")
    case True
    obtain ms1 cs1 where dc: "deleteCovered (NarrowerOrEqualKeys ms key) key (ms, cs) = (ms1, cs1)"
      by (cases "deleteCovered (NarrowerOrEqualKeys ms key) key (ms, cs)")
    have sp: "sub_polarity ms1 ms"
      using sub_polarity_deleteCovered [of "NarrowerOrEqualKeys ms key" key ms cs] dc by simp
    have l1: "Lookup ms1 a =
      (if Lookup ms a \<noteq> None \<and> shadows key a \<and>
          \<not> (a = key \<and> (\<exists>v. Lookup ms a = Some v \<and> IsDeny (MapStateEntry v)))
       then None else Lookup ms a)" for a
      using Lookup_deleteCovered [of "NarrowerOrEqualKeys ms key" key ms cs a] dc
      by (simp add: in_Narrower_shadows [OF i1])
    have g: "a = key" if "Lookup ms1 a \<noteq> None" "shadows key a" for a
      using that unfolding l1 by (auto split: if_splits)
    have "I2 (fst (snd (addKeyWithChanges key e cs1 ms1)))"
      using I2_sub_polarity [OF i2 sp] True g by (rule I2_addKey_deny)
    with r nc True dc show ?thesis
      by (auto simp: insertWithChanges_def denyPreferredInsertWithChanges_def)
  next
    case allow: False
    have n: "\<not> shadows d key" if "Lookup ms d = Some vd" "IsDeny (MapStateEntry vd)" for d vd
    proof
      assume "shadows d key"
      with that(1) have "d \<in> set (BroaderOrEqualKeys ms key)"
        by (simp add: in_Broader_shadows [OF i1])
      with that allow have "coveredByDeny ms key e" unfolding coveredByDeny_iff by blast
      with nc show False by simp
    qed
    have n': "\<not> shadows d key"
      if "sub_polarity ms1 ms" "Lookup ms1 d = Some vd" "IsDeny (MapStateEntry vd)" for ms1 d vd
    proof -
      from sub_polarityD [OF that(1,2)] that(3) obtain wd
        where "Lookup ms d = Some wd" "IsDeny (MapStateEntry wd)" by auto
      then show ?thesis by (rule n)
    qed
    have ad: "I2 (fst (snd (addKeyWithChanges key e' cs1 ms1)))"
      if "sub_polarity ms1 ms" "\<not> IsDeny (MapStateEntry e')" for ms1 cs1 e'
      using I2_sub_polarity [OF i2 that(1)] that(2) n' [OF that(1)] by (rule I2_addKey_allow)
    show ?thesis
    proof (cases "contains features authRules")
      case False
      with r nc allow ad [of ms e cs] show ?thesis
        by (auto simp: insertWithChanges_def denyPreferredInsertWithChanges_def)
    next
      case auth: True
      show ?thesis
      proof (cases "HasAuthType (MapStateEntry e) = DefaultAuthType")
        case True
        have np: "coveringAuthType (forKey_yield ms (CoveringKeysWithSameID ms key)) \<noteq> Inl x" for x
          using nc allow by (rule covering_no_panic)
        show ?thesis
        proof (cases "coveringAuthType (forKey_yield ms (CoveringKeysWithSameID ms key))")
          case (Inl x) with np [of x] show ?thesis by simp
        next
          case (Inr a)
          show ?thesis
          proof (cases a)
            case None
            from r nc allow auth True Inr None
            have "ms' = fst (snd (addKeyWithChanges key e cs ms))"
              by (auto simp: insertWithChanges_def denyPreferredInsertWithChanges_def
                    authPreferredInsert_def)
            with ad [of ms e cs] allow show ?thesis by simp
          next
            case (Some t)
            let ?e = "e\<lparr> MapStateEntry := (MapStateEntry e)\<lparr> AuthType := t \<rparr> \<rparr>"
            have e': "\<not> IsDeny (MapStateEntry ?e)" using allow by simp
            from r nc allow auth True Inr Some
            have "ms' = fst (snd (addKeyWithChanges key ?e cs ms))"
              by (auto simp: insertWithChanges_def denyPreferredInsertWithChanges_def
                    authPreferredInsert_def)
            with ad [of ms ?e cs] e' show ?thesis by simp
          qed
        qed
      next
        case False
        obtain ms1 cs1 where p: "propagateAuthType (SubsetKeysWithSameID ms key) e (ms, cs) = (ms1, cs1)"
          by (cases "propagateAuthType (SubsetKeysWithSameID ms key) e (ms, cs)")
        have sp: "sub_polarity ms1 ms"
          using sub_polarity_propagate [of "SubsetKeysWithSameID ms key" e ms cs] p by simp
        from r nc allow auth False p ad [OF sp allow, of cs1] show ?thesis
          by (auto simp: insertWithChanges_def denyPreferredInsertWithChanges_def
                authPreferredInsert_def)
      qed
    qed
  qed
qed

lemma I2_deleteKey:
  assumes "I2 ms"
  shows "I2 (fst (deleteKeyWithChanges key owner cs ms))"
  using assms sub_polarity_deleteKey by (rule I2_sub_polarity)

text \<open>
  Invariants I1 and I2 hold in the empty map state and are kept by \<open>insertWithChanges\<close>
  for any entry, feature set and \<open>ChangeState\<close>, by \<open>deleteKeyWithChanges\<close>, and so by
  every batch of engine changes: they hold in every map state that the engine builds.
\<close>

lemma I1_insert:
  assumes i: "I1 ms" and r: "insertWithChanges key e features cs ms = Inr (ms', cs')"
  shows "I1 ms'"
proof (cases "coveredByDeny ms key e")
  case True
  with r i show ?thesis
    by (simp add: insertWithChanges_def denyPreferredInsertWithChanges_def)
next
  case nc: False
  have ad: "I1 (fst (snd (addKeyWithChanges key e' cs1 ms1)))" if "I1 ms1" for e' cs1 ms1
    using that by (rule I1_addKey)
  show ?thesis
  proof (cases "IsDeny (MapStateEntry e)")
    case True
    obtain ms1 cs1 where dc: "deleteCovered (NarrowerOrEqualKeys ms key) key (ms, cs) = (ms1, cs1)"
      by (cases "deleteCovered (NarrowerOrEqualKeys ms key) key (ms, cs)")
    have "I1 ms1" using I1_deleteCovered [OF i, of "NarrowerOrEqualKeys ms key" key cs] dc by simp
    from ad [OF this, of e cs1] r nc True dc show ?thesis
      by (auto simp: insertWithChanges_def denyPreferredInsertWithChanges_def)
  next
    case allow: False
    show ?thesis
    proof (cases "contains features authRules")
      case False
      from ad [OF i, of e cs] r nc allow False show ?thesis
        by (auto simp: insertWithChanges_def denyPreferredInsertWithChanges_def)
    next
      case auth: True
      show ?thesis
      proof (cases "HasAuthType (MapStateEntry e) = DefaultAuthType")
        case True
        show ?thesis
        proof (cases "coveringAuthType (forKey_yield ms (CoveringKeysWithSameID ms key))")
          case (Inl x)
          with r nc allow auth True show ?thesis
            by (simp add: insertWithChanges_def denyPreferredInsertWithChanges_def
                  authPreferredInsert_def)
        next
          case (Inr a)
          show ?thesis
          proof (cases a)
            case None
            from r nc allow auth True Inr None
            have "ms' = fst (snd (addKeyWithChanges key e cs ms))"
              by (auto simp: insertWithChanges_def denyPreferredInsertWithChanges_def
                    authPreferredInsert_def)
            with ad [OF i, of e cs] show ?thesis by simp
          next
            case (Some t)
            let ?e = "e\<lparr> MapStateEntry := (MapStateEntry e)\<lparr> AuthType := t \<rparr> \<rparr>"
            from r nc allow auth True Inr Some
            have "ms' = fst (snd (addKeyWithChanges key ?e cs ms))"
              by (auto simp: insertWithChanges_def denyPreferredInsertWithChanges_def
                    authPreferredInsert_def)
            with ad [OF i, of ?e cs] show ?thesis by simp
          qed
        qed
      next
        case False
        obtain ms1 cs1 where p: "propagateAuthType (SubsetKeysWithSameID ms key) e (ms, cs) = (ms1, cs1)"
          by (cases "propagateAuthType (SubsetKeysWithSameID ms key) e (ms, cs)")
        have "I1 ms1" using I1_propagate [OF i, of "SubsetKeysWithSameID ms key" e cs] p by simp
        from ad [OF this, of e cs1] r nc allow auth False p show ?thesis
          by (auto simp: insertWithChanges_def denyPreferredInsertWithChanges_def
                authPreferredInsert_def)
      qed
    qed
  qed
qed

lemma invariants_iff:
  "trie_consistent ms \<and> no_shadowed_allow ms \<longleftrightarrow> I1 ms \<and> I2 ms"
proof (cases "I1 ms")
  case True
  then have "distinct (map fst (entries ms))" by (simp add: I1_def)
  with True show ?thesis by (simp add: trie_consistent_iff no_shadowed_allow_iff)
next
  case False
  then show ?thesis by (simp add: trie_consistent_iff)
qed

lemma insert_preserves_invariants:
  assumes "trie_consistent ms \<and> no_shadowed_allow ms"
    and "insertWithChanges key e features cs ms = Inr (ms', cs')"
  shows "trie_consistent ms' \<and> no_shadowed_allow ms'"
proof -
  from assms(1) have i: "I1 ms" "I2 ms" unfolding invariants_iff by simp_all
  from I1_insert [OF i(1) assms(2)] I2_insert [OF i assms(2)]
  show ?thesis unfolding invariants_iff by simp
qed

lemma delete_preserves_invariants:
  assumes "trie_consistent ms \<and> no_shadowed_allow ms"
  shows "trie_consistent (fst (deleteKeyWithChanges key owner cs ms))
       \<and> no_shadowed_allow (fst (deleteKeyWithChanges key owner cs ms))"
proof -
  from assms(1) have i: "I1 ms" "I2 ms" unfolding invariants_iff by simp_all
  from I1_deleteKey [OF i(1), of key owner cs] I2_deleteKey [OF i(2), of key owner cs]
  show ?thesis unfolding invariants_iff by simp
qed

lemma applyChanges_preserves_invariants:
  assumes "trie_consistent (fst st) \<and> no_shadowed_allow (fst st)"
    and "applyChanges batch st = Inr st'"
  shows "trie_consistent (fst st') \<and> no_shadowed_allow (fst st')"
  using assms
proof (induction batch arbitrary: st)
  case Nil then show ?case by simp
next
  case (Cons c batch)
  obtain ms cs where st: "st = (ms, cs)" by (cases st)
  from Cons.prems(2) obtain st1 where s: "applyChange c st = Inr st1" "applyChanges batch st1 = Inr st'"
    by (auto split: sum.splits)
  have "trie_consistent (fst st1) \<and> no_shadowed_allow (fst st1)"
  proof (cases c)
    case (Insert key e features)
    with s(1) st have r: "insertWithChanges key e features cs ms = Inr (fst st1, snd st1)" by simp
    from Cons.prems(1) st have "trie_consistent ms \<and> no_shadowed_allow ms" by simp
    from insert_preserves_invariants [OF this r] show ?thesis .
  next
    case (DeleteKey key owner)
    with s(1) st have "st1 = deleteKeyWithChanges key owner cs ms" by auto
    with Cons.prems(1) st delete_preserves_invariants [of ms key owner cs] show ?thesis by simp
  qed
  from Cons.IH [OF this s(2)] show ?case .
qed

lemma invariants_new: "trie_consistent newMapState \<and> no_shadowed_allow newMapState"
  by (simp add: trie_consistent_def no_shadowed_allow_def newMapState_def)

lemma engine_invariants:
  assumes "applyChanges batch (newMapState, cs0) = Inr (ms, cs)"
  shows "trie_consistent ms \<and> no_shadowed_allow ms"
  using applyChanges_preserves_invariants [of "(newMapState, cs0)" batch "(ms, cs)"]
    invariants_new assms by simp



section \<open>Scenario S1 and a reverted batch\<close>


theorem insert_shadowed_by_deny_aborts_witness:
  "trie_consistent state_D
 \<and> Lookup state_D (WithIdentity tcpAny 0) = Some (denyEntry (Some 2))
 \<and> IsDeny (MapStateEntry (denyEntry (Some 2)))
 \<and> IsPrefixOf (LPMKey (WithIdentity tcpAny 0)) (LPMKey (WithIdentity tcp80 10))
 \<and> Identity (WithIdentity tcpAny 0) = 0
 \<and> WithIdentity tcpAny 0 \<noteq> WithIdentity tcp80 10
 \<and> insertWithChanges (WithIdentity tcp80 10) (allowEntry (Some 1)) {} newChangeState state_D
     = Inr (state_D, newChangeState)"
proof -
  let ?d = "WithIdentity tcpAny 0"
  let ?k = "WithIdentity tcp80 10"
  have h1: "trie_consistent state_D" by (simp add: all_defs)
  have h2: "Lookup state_D ?d = Some (denyEntry (Some 2))" by (simp add: all_defs)
  have h3: "IsDeny (MapStateEntry (denyEntry (Some 2)))" by (simp add: all_defs)
  have h4: "IsPrefixOf (LPMKey ?d) (LPMKey ?k)" by (simp add: all_defs)
  have h5: "Identity ?d = 0" by (simp add: all_defs)
  have h6: "?d \<noteq> ?k" by (simp add: all_defs)
  from h5 have h5': "Identity ?d = Identity ?k \<or> Identity ?d = 0" by simp
  from h6 have h6': "\<not> (IsDeny (MapStateEntry (allowEntry (Some 1))) \<and> ?d = ?k)" by simp
  from insert_shadowed_by_deny_aborts [OF h1 h2 h3 h4 h5' h6', of "{}" newChangeState]
    h1 h2 h3 h4 h5 h6
  show ?thesis by blast
qed

theorem revert_restores_witness:
  "trie_consistent state_A
 \<and> (\<exists>ms' cs'. applyChanges [Insert (WithIdentity tcpAny 0) (denyEntry (Some 2)) {},
                              Insert (WithIdentity tcp80 11) (allowEntry (Some 1)) {},
                              DeleteKey (WithIdentity tcpAny 0) (Some 2),
                              Insert (WithIdentity tcp80 12) (allowEntry (Some 3)) {}]
                 (state_A, newChangeState) = Inr (ms', cs')
       \<and> Lookup ms' (WithIdentity tcp80 10) = None
       \<and> Lookup ms' (WithIdentity tcp80 12) = Some (allowEntry (Some 3))
       \<and> Lookup (revertChanges cs' ms') (WithIdentity tcp80 10) = Some (allowEntry (Some 1))
       \<and> Lookup (revertChanges cs' ms') (WithIdentity tcp80 12) = None)"
proof -
  let ?b = "[Insert (WithIdentity tcpAny 0) (denyEntry (Some 2)) {},
             Insert (WithIdentity tcp80 11) (allowEntry (Some 1)) {},
             DeleteKey (WithIdentity tcpAny 0) (Some 2),
             Insert (WithIdentity tcp80 12) (allowEntry (Some 3)) {}]"
  have h1: "trie_consistent state_A" by (simp add: all_defs)
  have l: "Lookup state_A (WithIdentity tcp80 10) = Some (allowEntry (Some 1))"
    "Lookup state_A (WithIdentity tcp80 12) = None"
    by (simp_all add: all_defs)
  have ev: "case applyChanges ?b (state_A, newChangeState) of
      Inl e \<Rightarrow> False
    | Inr (ms', cs') \<Rightarrow> Lookup ms' (WithIdentity tcp80 10) = None
        \<and> Lookup ms' (WithIdentity tcp80 12) = Some (allowEntry (Some 3))"
    by (simp add: all_defs List.insert_def)
  from revert_restores [OF h1, of ?b] obtain ms' cs'
    where r: "applyChanges ?b (state_A, newChangeState) = Inr (ms', cs')"
      and c: "\<forall>k. Lookup (revertChanges cs' ms') k = Lookup state_A k"
    by blast
  from ev r have "Lookup ms' (WithIdentity tcp80 10) = None"
    "Lookup ms' (WithIdentity tcp80 12) = Some (allowEntry (Some 3))" by simp_all
  with r c l h1 show ?thesis by auto
qed

section \<open>Reconciling desired and realized state\<close>

lemma syncAdd_proj:
  "realized (syncAdd fails w kv st) =
     (if needsWrite (realized st) kv then AList.update (fst kv) (snd kv) (realized st) else realized st)"
  "policyMapCalls (endpoint (syncAdd fails w kv st)) =
     policyMapCalls (endpoint st) @ (if needsWrite (realized st) kv then [writeCall kv] else [])"
  "desiredPolicy (endpoint (syncAdd fails w kv st)) = desiredPolicy (endpoint st)"
  by (auto simp: syncAdd_def needsWrite_def writeCall_def addPolicyKey_def Let_def
           split: option.splits prod.splits if_splits)

lemma syncDelete_proj:
  "realized (syncDelete fails w k st) =
     (if Get (desiredPolicy (endpoint st)) k = None then AList.delete k (realized st) else realized st)"
  "policyMapCalls (endpoint (syncDelete fails w k st)) =
     policyMapCalls (endpoint st) @
       (if Get (desiredPolicy (endpoint st)) k = None then [DeleteMapKey k] else [])"
  "desiredPolicy (endpoint (syncDelete fails w k st)) = desiredPolicy (endpoint st)"
  by (auto simp: syncDelete_def deletePolicyKey_def Let_def
           split: option.splits prod.splits if_splits)

lemma needsWrite_update_other:
  "fst kv \<noteq> k \<Longrightarrow> needsWrite (AList.update k v r) kv = needsWrite r kv"
  by (simp add: needsWrite_def AList.update_conv')

lemma fold_syncAdd:
  assumes "distinct (map fst kvs)"
  shows "policyMapCalls (endpoint (fold (syncAdd fails w) kvs st)) =
           policyMapCalls (endpoint st) @ map writeCall (filter (needsWrite (realized st)) kvs)
       \<and> desiredPolicy (endpoint (fold (syncAdd fails w) kvs st)) = desiredPolicy (endpoint st)
       \<and> map_of (realized (fold (syncAdd fails w) kvs st)) =
           (\<lambda>k. case map_of kvs k of
                  None \<Rightarrow> map_of (realized st) k
                | Some v \<Rightarrow> if needsWrite (realized st) (k, v) then Some v
                            else map_of (realized st) k)
       \<and> filter P (map fst (realized (fold (syncAdd fails w) kvs st))) =
           filter P (map fst (realized st)) @
           filter P (filter (\<lambda>k. map_of (realized st) k = None) (map fst kvs))
       \<and> (distinct (map fst (realized st)) \<longrightarrow>
            distinct (map fst (realized (fold (syncAdd fails w) kvs st))))"
  using assms
proof (induction kvs arbitrary: st)
  case Nil
  then show ?case by simp
next
  case (Cons kv kvs)
  obtain k v where kv: "kv = (k, v)" by (cases kv)
  from Cons.prems kv have nk: "k \<notin> fst ` set kvs" and d: "distinct (map fst kvs)" by auto
  let ?st1 = "syncAdd fails w kv st"
  note ih = Cons.IH [OF d, of ?st1]
  have nw: "filter (needsWrite (realized ?st1)) kvs = filter (needsWrite (realized st)) kvs"
  proof (rule filter_cong [OF refl])
    fix x assume "x \<in> set kvs"
    with nk have "fst x \<noteq> k" by auto
    then show "needsWrite (realized ?st1) x = needsWrite (realized st) x"
      by (simp add: syncAdd_proj kv needsWrite_update_other)
  qed
  have nw2: "needsWrite (realized ?st1) (k', v') = needsWrite (realized st) (k', v')"
    if "k' \<noteq> k" for k' v'
    using that by (simp add: syncAdd_proj kv needsWrite_update_other)
  have mk: "map_of kvs k = None" using nk by (simp add: map_of_eq_None_iff)
  have c1: "policyMapCalls (endpoint (fold (syncAdd fails w) (kv # kvs) st)) =
           policyMapCalls (endpoint st) @ map writeCall (filter (needsWrite (realized st)) (kv # kvs))"
    using ih nw by (simp add: syncAdd_proj)
  have c2: "desiredPolicy (endpoint (fold (syncAdd fails w) (kv # kvs) st)) = desiredPolicy (endpoint st)"
    using ih by (simp add: syncAdd_proj)
  have c3: "map_of (realized (fold (syncAdd fails w) (kv # kvs) st)) =
           (\<lambda>k. case map_of (kv # kvs) k of
                  None \<Rightarrow> map_of (realized st) k
                | Some v \<Rightarrow> if needsWrite (realized st) (k, v) then Some v
                            else map_of (realized st) k)"
  proof
    fix x
    show "map_of (realized (fold (syncAdd fails w) (kv # kvs) st)) x =
        (case map_of (kv # kvs) x of
                  None \<Rightarrow> map_of (realized st) x
                | Some v \<Rightarrow> if needsWrite (realized st) (x, v) then Some v
                            else map_of (realized st) x)"
    proof (cases "x = k")
      case True
      then show ?thesis using ih mk kv
        by (simp add: syncAdd_proj AList.update_conv')
    next
      case False
      then show ?thesis using ih kv nw2 [OF False]
        by (auto simp: syncAdd_proj AList.update_conv' split: option.splits)
    qed
  qed
  have keys1: "map fst (realized ?st1) =
      (if needsWrite (realized st) kv \<and> map_of (realized st) k = None
       then map fst (realized st) @ [k] else map fst (realized st))"
    by (auto simp: syncAdd_proj kv AList.update_keys map_of_eq_None_iff needsWrite_def
             split: option.splits)
  have nn: "map_of (realized st) k = None \<Longrightarrow> needsWrite (realized st) kv"
    by (simp add: needsWrite_def kv)
  have m1: "map_of (realized ?st1) x = None \<longleftrightarrow> map_of (realized st) x = None" if "x \<noteq> k" for x
    using that by (simp add: syncAdd_proj kv AList.update_conv')
  have f1: "filter (\<lambda>k. map_of (realized ?st1) k = None) (map fst kvs)
          = filter (\<lambda>k. map_of (realized st) k = None) (map fst kvs)"
  proof (rule filter_cong [OF refl])
    fix x assume "x \<in> set (map fst kvs)"
    with nk have "x \<noteq> k" by auto
    then show "(map_of (realized ?st1) x = None) = (map_of (realized st) x = None)" by (rule m1)
  qed
  have c4: "filter P (map fst (realized (fold (syncAdd fails w) (kv # kvs) st))) =
           filter P (map fst (realized st)) @
           filter P (filter (\<lambda>k. map_of (realized st) k = None) (map fst (kv # kvs)))"
  proof -
    from ih have ih4: "filter P (map fst (realized (fold (syncAdd fails w) kvs ?st1))) =
        filter P (map fst (realized ?st1)) @
        filter P (filter (\<lambda>k. map_of (realized ?st1) k = None) (map fst kvs))"
      by blast
    show ?thesis
    proof (cases "map_of (realized st) k = None")
      case True
      with keys1 nn have "map fst (realized ?st1) = map fst (realized st) @ [k]" by simp
      with ih4 True show ?thesis unfolding f1 by (simp add: kv del: filter_filter)
    next
      case False
      with keys1 have "map fst (realized ?st1) = map fst (realized st)" by simp
      with ih4 False show ?thesis unfolding f1 by (simp add: kv del: filter_filter)
    qed
  qed
  have c5: "distinct (map fst (realized st)) \<longrightarrow>
            distinct (map fst (realized (fold (syncAdd fails w) (kv # kvs) st)))"
    using ih by (auto simp: syncAdd_proj AList.distinct_update)
  from c1 c2 c3 c4 c5 show ?case by blast
qed

lemma fold_syncDelete:
  "policyMapCalls (endpoint (fold (syncDelete fails w) ks st)) =
     policyMapCalls (endpoint st) @
       map DeleteMapKey (filter (\<lambda>k. Get (desiredPolicy (endpoint st)) k = None) ks)
 \<and> desiredPolicy (endpoint (fold (syncDelete fails w) ks st)) = desiredPolicy (endpoint st)
 \<and> map_of (realized (fold (syncDelete fails w) ks st)) =
     (\<lambda>k. if k \<in> set ks \<and> Get (desiredPolicy (endpoint st)) k = None then None
          else map_of (realized st) k)
 \<and> (distinct (map fst (realized st)) \<longrightarrow>
      distinct (map fst (realized (fold (syncDelete fails w) ks st))))"
proof (induction ks arbitrary: st)
  case Nil
  then show ?case by simp
next
  case (Cons k ks)
  note ih = Cons.IH [of "syncDelete fails w k st"]
  show ?case using ih
    by (auto simp: syncDelete_proj AList.delete_conv' AList.distinct_delete fun_eq_iff)
qed

lemma Get_eq: "Get ms k = map_option MapStateEntry (map_of (entries ms) k)"
  by (simp add: Get_def get_def Lookup_def split: option.splits)

lemma map_of_desiredEntries:
  "map_of (desiredEntries e) k = Get (desiredPolicy e) k"
  by (simp add: desiredEntries_def Get_eq map_of_map)

lemma fst_desiredEntries: "map fst (desiredEntries e) = map fst (entries (desiredPolicy e))"
  by (simp add: desiredEntries_def case_prod_unfold comp_def)

lemma Equal_refl [simp]: "Equal v v"
  by (simp add: Equal_def)

lemma isWrite_writeCall [simp]: "isWrite (writeCall kv)"
  by (simp add: isWrite_def writeCall_def)

text \<open>
  C8, as stated, fails for a desired entry that differs from the realized entry of its key
  only in a field that \<open>Equal\<close> does not compare. With a desired allow entry of explicit
  auth type 0 and a realized allow entry of default auth type 0 at the same key, the call
  makes no external write, although \<open>AllowKey\<close> would be given another \<open>HasAuthType\<close>
  flag, and the realized entry stays different from the desired one.
\<close>

theorem sync_keeps_entry_differing_in_HasAuthType:
  "Get (desiredPolicy endpoint_S6) (WithIdentity tcp80 10)
     = Some \<lparr> Listener = [], ProxyPort = 0, IsDeny = False,
              HasAuthType = ExplicitAuthType, AuthType = 0 \<rparr>
 \<and> map_of realized_S5 (WithIdentity tcp80 10)
     = Some \<lparr> Listener = [], ProxyPort = 0, IsDeny = False,
              HasAuthType = DefaultAuthType, AuthType = 0 \<rparr>
 \<and> policyMapCalls (endpoint (syncPolicyMapWith (\<lambda>c. False) realized_S5 False endpoint_S6)) = []
 \<and> realized (syncPolicyMapWith (\<lambda>c. False) realized_S5 False endpoint_S6) = realized_S5
 \<and> map_of (realized (syncPolicyMapWith (\<lambda>c. False) realized_S5 False endpoint_S6))
       (WithIdentity tcp80 10)
     \<noteq> Get (desiredPolicy endpoint_S6) (WithIdentity tcp80 10)"
  by (simp add: syncPolicyMapWith_def syncAdd_def syncDelete_def addPolicyKey_def
        deletePolicyKey_def endpoint_S6_def state_E_def realized_S5_def Get_def
        newMapStateEntry_def all_defs)

text \<open>
  C8, amended. One call of \<open>syncPolicyMapWith\<close> first makes the external writes, one for
  every desired key whose realized entry is absent or differs from the desired entry in
  \<open>IsDeny\<close>, \<open>ProxyPort\<close> or \<open>AuthType\<close> (is not \<open>Equal\<close>), and only then the external
  deletes, one for every realized key that is not desired. Afterwards the realized map
  has the keys of the desired map state; a key that was written holds the desired entry,
  any other key holds its realized entry as before, which agrees with the desired entry in
  \<open>IsDeny\<close>, \<open>ProxyPort\<close> and \<open>AuthType\<close>: the desired map state \<open>Equals\<close> the realized
  map. The keys of a Go map are distinct. The witness is scenario S5.
\<close>

theorem sync_writes_before_deletes:
  assumes "distinct (map fst (entries (desiredPolicy e)))" and "distinct (map fst realized0)"
  shows "Equals (desiredPolicy e) (realized (syncPolicyMapWith fails realized0 withDiffs e))
       \<and> (\<forall>k. map_of (realized (syncPolicyMapWith fails realized0 withDiffs e)) k =
              (case Get (desiredPolicy e) k of
                 None \<Rightarrow> None
               | Some v \<Rightarrow> if needsWrite realized0 (k, v) then Some v else map_of realized0 k))
       \<and> policyMapCalls (endpoint (syncPolicyMapWith fails realized0 withDiffs e)) =
           policyMapCalls e
           @ map writeCall (filter (needsWrite realized0) (desiredEntries e))
           @ map DeleteMapKey (filter (\<lambda>k. Get (desiredPolicy e) k = None) (map fst realized0))
       \<and> list_all isWrite (map writeCall (filter (needsWrite realized0) (desiredEntries e)))
       \<and> list_all (\<lambda>c. \<not> isWrite c)
           (map DeleteMapKey (filter (\<lambda>k. Get (desiredPolicy e) k = None) (map fst realized0)))"
proof -
  let ?D = "desiredPolicy e"
  let ?absent = "\<lambda>k. Get ?D k = None"
  define st0 where "st0 = \<lparr> realized = realized0, endpoint = e, errors = 0, diffCount = 0, diffs = [] \<rparr>"
  define st1 where "st1 = fold (syncAdd fails withDiffs) (desiredEntries e) st0"
  define st where "st = fold (syncDelete fails withDiffs) (map fst (realized st1)) st1"
  have sy: "syncPolicyMapWith fails realized0 withDiffs e = st"
    by (simp add: syncPolicyMapWith_def st_def st1_def st0_def desiredEntries_def Let_def)
  have dd: "distinct (map fst (desiredEntries e))"
    using assms(1) by (simp add: fst_desiredEntries)
  have r0: "realized st0 = realized0" "endpoint st0 = e" by (simp_all add: st0_def)
  note a = fold_syncAdd [OF dd, of fails withDiffs st0 ?absent, folded st1_def, unfolded r0]
  note b = fold_syncDelete [of fails withDiffs "map fst (realized st1)" st1, folded st_def]
  from a have a1: "policyMapCalls (endpoint st1) =
      policyMapCalls e @ map writeCall (filter (needsWrite realized0) (desiredEntries e))"
    and a2: "desiredPolicy (endpoint st1) = ?D"
    and a3: "map_of (realized st1) =
           (\<lambda>k. case map_of (desiredEntries e) k of
                  None \<Rightarrow> map_of realized0 k
                | Some v \<Rightarrow> if needsWrite realized0 (k, v) then Some v else map_of realized0 k)"
    and a4: "filter ?absent (map fst (realized st1)) =
           filter ?absent (map fst realized0) @
           filter ?absent (filter (\<lambda>k. map_of realized0 k = None) (map fst (desiredEntries e)))"
    and a5: "distinct (map fst (realized st1))"
    using assms(2) by blast+
  from b have b1: "policyMapCalls (endpoint st) =
      policyMapCalls (endpoint st1) @ map DeleteMapKey (filter ?absent (map fst (realized st1)))"
    and b3: "map_of (realized st) =
     (\<lambda>k. if k \<in> set (map fst (realized st1)) \<and> ?absent k then None else map_of (realized st1) k)"
    and b4: "distinct (map fst (realized st))"
    using a5 unfolding a2 by blast+
  have none: "filter ?absent (filter (\<lambda>k. map_of realized0 k = None) (map fst (desiredEntries e))) = []"
  proof -
    have "\<not> ?absent k" if "k \<in> set (map fst (desiredEntries e))" for k
      using that unfolding fst_desiredEntries Get_eq
      by (auto simp: map_of_eq_None_iff)
    then show ?thesis by (auto simp: filter_empty_conv)
  qed
  have calls: "policyMapCalls (endpoint st) =
           policyMapCalls e
           @ map writeCall (filter (needsWrite realized0) (desiredEntries e))
           @ map DeleteMapKey (filter ?absent (map fst realized0))"
    unfolding b1 a1 a4 none by simp
  have m: "map_of (realized st) k =
      (case Get ?D k of
         None \<Rightarrow> None
       | Some v \<Rightarrow> if needsWrite realized0 (k, v) then Some v else map_of realized0 k)" for k
  proof (cases "Get ?D k")
    case None
    have "map_of (realized st1) k = None" if "k \<notin> set (map fst (realized st1))"
      using that by (simp add: map_of_eq_None_iff)
    with None show ?thesis unfolding b3 by auto
  next
    case (Some v)
    then show ?thesis unfolding b3 a3 map_of_desiredEntries by simp
  qed
  have eqv: "\<exists>vB. map_of (realized st) k = Some vB \<and> Equal vB v" if "Get ?D k = Some v" for k v
    using that unfolding m by (auto simp: needsWrite_def split: option.splits)
  have dom: "set (map fst (realized st)) = set (map fst (entries ?D))"
  proof -
    have "k \<in> set (map fst (realized st)) \<longleftrightarrow> k \<in> set (map fst (entries ?D))" for k
    proof -
      have "k \<in> set (map fst (realized st)) \<longleftrightarrow> map_of (realized st) k \<noteq> None"
        by (simp add: map_of_eq_None_iff)
      also have "\<dots> \<longleftrightarrow> Get ?D k \<noteq> None"
        unfolding m by (auto simp: needsWrite_def split: option.splits)
      also have "\<dots> \<longleftrightarrow> k \<in> set (map fst (entries ?D))"
        unfolding Get_eq by (simp add: map_of_eq_None_iff)
      finally show ?thesis .
    qed
    then show ?thesis by blast
  qed
  have len: "Len ?D = length (realized st)"
  proof -
    have "length (realized st) = card (set (map fst (realized st)))"
      using distinct_card [OF b4] by simp
    also have "\<dots> = card (set (map fst (entries ?D)))" by (simp only: dom)
    also have "\<dots> = length (entries ?D)"
      using distinct_card [OF assms(1)] by simp
    finally show ?thesis by (simp add: Len_def)
  qed
  have all: "list_all (\<lambda>(kA, vA). case map_of (realized st) kA of
                                   None \<Rightarrow> False
                                 | Some vB \<Rightarrow> Equal vB (MapStateEntry vA)) (entries ?D)"
    unfolding list_all_iff
  proof clarify
    fix kA vA assume "(kA, vA) \<in> set (entries ?D)"
    with assms(1) have "map_of (entries ?D) kA = Some vA" by simp
    then have "Get ?D kA = Some (MapStateEntry vA)" by (simp add: Get_eq)
    from eqv [OF this] show "case map_of (realized st) kA of None \<Rightarrow> False
        | Some vB \<Rightarrow> Equal vB (MapStateEntry vA)" by auto
  qed
  have E: "Equals ?D (realized st)"
    using len all by (simp add: Equals_def)
  have w: "list_all isWrite (map writeCall (filter (needsWrite realized0) (desiredEntries e)))"
    by (simp add: list_all_iff)
  have dl: "list_all (\<lambda>c. \<not> isWrite c) (map DeleteMapKey (filter ?absent (map fst realized0)))"
    by (simp add: list_all_iff isWrite_def)
  from E m calls w dl show ?thesis unfolding sy by blast
qed

theorem sync_writes_before_deletes_witness:
  "distinct (map fst (entries (desiredPolicy endpoint_S5)))
 \<and> distinct (map fst realized_S5)
 \<and> Equals state_D (realized (syncPolicyMapWith (\<lambda>c. False) realized_S5 False endpoint_S5))
 \<and> policyMapCalls (endpoint (syncPolicyMapWith (\<lambda>c. False) realized_S5 False endpoint_S5))
     = [DenyKey (WithIdentity tcpAny 0), DeleteMapKey (WithIdentity tcp80 10)]
 \<and> map fst (realized (syncPolicyMapWith (\<lambda>c. False) realized_S5 False endpoint_S5))
     = [WithIdentity tcpAny 0]"
proof -
  have h1: "distinct (map fst (entries (desiredPolicy endpoint_S5)))"
    by (simp add: endpoint_S5_def all_defs)
  have h2: "distinct (map fst realized_S5)" by (simp add: realized_S5_def)
  have d: "desiredPolicy endpoint_S5 = state_D" "policyMapCalls endpoint_S5 = []"
    by (simp_all add: endpoint_S5_def)
  have w: "map writeCall (filter (needsWrite realized_S5) (desiredEntries endpoint_S5))
      = [DenyKey (WithIdentity tcpAny 0)]"
    by (simp add: desiredEntries_def endpoint_S5_def realized_S5_def needsWrite_def writeCall_def all_defs)
  have dl: "map DeleteMapKey (filter (\<lambda>k. Get state_D k = None) (map fst realized_S5))
      = [DeleteMapKey (WithIdentity tcp80 10)]"
    by (simp add: realized_S5_def Get_def all_defs)
  have k: "map fst (realized (syncPolicyMapWith (\<lambda>c. False) realized_S5 False endpoint_S5))
     = [WithIdentity tcpAny 0]"
    by (simp add: syncPolicyMapWith_def syncAdd_def syncDelete_def addPolicyKey_def
          deletePolicyKey_def endpoint_S5_def realized_S5_def Get_def all_defs)
  from sync_writes_before_deletes [OF h1 h2, of "\<lambda>c. False" False] h1 h2 k
  show ?thesis unfolding d w dl by simp
qed

end
